theory Spec2Isabelle
  imports
    Main
    "HOL-Library.Word"
    "HOL-Library.Char_ord"
    "HOL-Library.List_Lexorder"
begin

section \<open>Data model of \<open>chandy-lamport/server.go\<close>\<close>

text \<open>
  Go's \<open>int\<close> is a 64-bit two's complement integer on the usual platforms: arithmetic
  wraps around and \<open><\<close> compares signed values.  Token counts, snapshot ids and receive
  times all have this type.  Server ids are Go strings.
\<close>

type_synonym go_int = "64 word"

text \<open>
  A message is a Go \<open>interface{}\<close>.  The type switch of \<open>HandlePacket\<close> knows
  \<open>MarkerMessage\<close> and \<open>TokenMessage\<close>; a value of any other dynamic type falls
  through the switch, which has no default branch.
\<close>

datatype message =
    MarkerMessage (snapshotId: go_int)
  | TokenMessage (numTokens: go_int)
  | OtherMessage

text \<open>\<open>SentMessageEvent{src, dest, message}\<close>, handed to the logger.\<close>

datatype SentMessageEvent = SentMessageEvent string string message

text \<open>\<open>SendMessageEvent{src, dest, message, receiveTime}\<close>, pushed on a link's queue.\<close>

datatype SendMessageEvent =
  SendMessageEvent (ev_src: string) (ev_dest: string) (ev_message: message) (receiveTime: go_int)

text \<open>\<open>SnapshotMessage{src, dest, message}\<close>, one captured in-flight message.\<close>

datatype SnapshotMessage =
  SnapshotMessage (sm_src: string) (sm_dest: string) (sm_message: message)

text \<open>
  \<open>SnapshotState{id, tokens, messages}\<close>: the record of one server for one snapshot.
  Field \<open>id\<close> is called \<open>snap_id\<close> here.
\<close>

record SnapshotState =
  snap_id :: go_int
  tokens :: "string \<rightharpoonup> go_int"
  messages :: "SnapshotMessage list"

text \<open>
  \<open>Link{src, dest, events}\<close>.  The queue \<open>events\<close> is a list, oldest event first:
  \<open>Push\<close> appends at the end.
\<close>

record Link =
  src :: string
  dest :: string
  events :: "SendMessageEvent list"

text \<open>
  A \<open>Link\<close> object is shared by pointer between the source's \<open>outboundLinks\<close> and
  the destination's \<open>inboundLinks\<close>.  The object is kept in the source's map; the
  destination's map holds a reference to it, the pair (source, destination) of server
  addresses.  \<open>server.go\<close> reads \<open>inboundLinks\<close> only for its length.
\<close>

type_synonym link_ref = "string \<times> string"

record Server =
  Id :: string
  Tokens :: go_int
  outboundLinks :: "string \<rightharpoonup> Link"
  inboundLinks :: "string \<rightharpoonup> link_ref"
  receivedSnapshot :: "go_int \<rightharpoonup> bool"
  inReceivedMarker :: "go_int \<rightharpoonup> (string \<rightharpoonup> bool)"
  snapshot :: "go_int \<rightharpoonup> SnapshotState"

text \<open>
  Field \<open>sim\<close> of the server points to the simulator.  A call the server makes on it
  is written to a list of calls, in program order, which each operation returns next to
  the new server state: \<open>sim.logger.RecordEvent(server, e)\<close>,
  \<open>sim.chanMap[id] <- state\<close> (\<open>None\<close> is a nil pointer) and
  \<open>sim.NotifySnapshotComplete(serverId, id)\<close>.
\<close>

datatype sim_call =
    RecordEvent string SentMessageEvent
  | ChanSend go_int "SnapshotState option"
  | NotifySnapshotComplete string go_int

text \<open>
  \<open>log.Fatalf\<close> and run-time panics end the program; they are error values.
\<close>

datatype error =
    InsufficientTokens
  | UnknownDest
  | NilMapAssignment
  | NilPointerDereference

definition NewServer :: "string \<Rightarrow> go_int \<Rightarrow> Server" where
  "NewServer ident toks =
     \<lparr>Id = ident, Tokens = toks, outboundLinks = Map.empty, inboundLinks = Map.empty,
      receivedSnapshot = Map.empty, inReceivedMarker = Map.empty, snapshot = Map.empty\<rparr>"

subsection \<open>Reading Go maps\<close>

text \<open>\<open>len(m)\<close> of a Go map: the number of its keys.\<close>

definition len :: "('k \<rightharpoonup> 'v) \<Rightarrow> nat" where
  "len m = card (dom m)"

text \<open>\<open>server.receivedSnapshot[id]\<close>: a missing key reads as \<open>false\<close>.\<close>

definition hasReceivedSnapshot :: "Server \<Rightarrow> go_int \<Rightarrow> bool" where
  "hasReceivedSnapshot server sid =
     (case receivedSnapshot server sid of None \<Rightarrow> False | Some b \<Rightarrow> b)"

text \<open>\<open>server.inReceivedMarker[id]\<close>: a missing key reads as the nil map, which has no keys.\<close>

definition markersOf :: "Server \<Rightarrow> go_int \<Rightarrow> (string \<rightharpoonup> bool)" where
  "markersOf server sid =
     (case inReceivedMarker server sid of None \<Rightarrow> Map.empty | Some m \<Rightarrow> m)"

text \<open>\<open>server.inReceivedMarker[id][src]\<close>.\<close>

definition markerSeen :: "Server \<Rightarrow> go_int \<Rightarrow> string \<Rightarrow> bool" where
  "markerSeen server sid sender =
     (case markersOf server sid sender of None \<Rightarrow> False | Some b \<Rightarrow> b)"

text \<open>
  Modelled from the spec: \<open>getSortedKeys\<close> is not in \<open>server.go\<close>; the spec asks for
  a deterministic order of transmission, ascending peer id.  Strings are compared
  byte by byte, a proper prefix first.
\<close>

definition getSortedKeys :: "(string \<rightharpoonup> 'v) \<Rightarrow> string list" where
  "getSortedKeys m = sorted_list_of_set (dom m)"

section \<open>Operations of a server\<close>

subsection \<open>\<open>SendToNeighbors\<close>\<close>

text \<open>
  One iteration of the loop, for key \<open>serverId\<close>: log the sent message, then push the
  event on the link.  \<open>rt serverId\<close> is what \<open>sim.GetReceiveTime()\<close> returns in this
  iteration (the simulator is not in \<open>server.go\<close>, so the value is a parameter).  The
  key comes from the map itself, so the lookup finds a link.
\<close>

definition sendOne ::
  "(string \<Rightarrow> go_int) \<Rightarrow> message \<Rightarrow> string \<Rightarrow> Server \<times> sim_call list \<Rightarrow> Server \<times> sim_call list"
where
  "sendOne rt msg serverId st =
     (case st of (server, log) \<Rightarrow>
        (case outboundLinks server serverId of
           None \<Rightarrow> (server, log)
         | Some link \<Rightarrow>
             (server\<lparr>outboundLinks := (outboundLinks server)(serverId \<mapsto>
                 link\<lparr>events := events link @
                   [SendMessageEvent (Id server) (dest link) msg (rt serverId)]\<rparr>)\<rparr>,
              log @ [RecordEvent (Id server) (SentMessageEvent (Id server) (dest link) msg)])))"

definition SendToNeighbors ::
  "(string \<Rightarrow> go_int) \<Rightarrow> Server \<Rightarrow> message \<Rightarrow> Server \<times> sim_call list"
where
  "SendToNeighbors rt server msg =
     fold (sendOne rt msg) (getSortedKeys (outboundLinks server)) (server, [])"

subsection \<open>\<open>SendTokens\<close>\<close>

text \<open>
  A fatal error carries the state of the server and the calls made up to the point
  where \<open>log.Fatalf\<close> ends the program.  \<open>rt\<close> is the result of
  \<open>sim.GetReceiveTime()\<close>.
\<close>

definition SendTokens ::
  "go_int \<Rightarrow> Server \<Rightarrow> go_int \<Rightarrow> string
     \<Rightarrow> (error \<times> Server \<times> sim_call list) + (Server \<times> sim_call list)"
where
  "SendTokens rt server n d =
     (if Tokens server <s n then Inl (InsufficientTokens, server, [])
      else
        let msg = TokenMessage n;
            log = [RecordEvent (Id server) (SentMessageEvent (Id server) d msg)];
            server1 = server\<lparr>Tokens := Tokens server - n\<rparr>
        in (case outboundLinks server1 d of
              None \<Rightarrow> Inl (UnknownDest, server1, log)
            | Some link \<Rightarrow>
                Inr (server1\<lparr>outboundLinks := (outboundLinks server1)(d \<mapsto>
                       link\<lparr>events := events link @
                         [SendMessageEvent (Id server1) d msg rt]\<rparr>)\<rparr>,
                     log)))"

subsection \<open>\<open>StartSnapshot\<close>\<close>

definition StartSnapshot ::
  "(string \<Rightarrow> go_int) \<Rightarrow> Server \<Rightarrow> go_int \<Rightarrow> Server \<times> sim_call list"
where
  "StartSnapshot rt server sid =
     SendToNeighbors rt
       (server\<lparr>inReceivedMarker := (inReceivedMarker server)(sid \<mapsto> Map.empty),
               receivedSnapshot := (receivedSnapshot server)(sid \<mapsto> True),
               snapshot := (snapshot server)(sid \<mapsto>
                 \<lparr>snap_id = sid, tokens = [Id server \<mapsto> Tokens server], messages = []\<rparr>)\<rparr>)
       (MarkerMessage sid)"

subsection \<open>\<open>HandlePacket\<close>\<close>

text \<open>
  The token branch ranges over \<open>receivedSnapshot\<close>; each iteration touches only the
  record of its own snapshot id, so the order of the iterations does not matter and the
  loop is one update of the map \<open>snapshot\<close>, key by key.  \<open>capturing\<close> is the test of
  the loop body.  Appending to the record of a snapshot id that has no record
  dereferences a nil pointer.
\<close>

definition capturing :: "Server \<Rightarrow> go_int \<Rightarrow> string \<Rightarrow> bool" where
  "capturing server sid sender \<longleftrightarrow> hasReceivedSnapshot server sid \<and> \<not> markerSeen server sid sender"

definition capture :: "Server \<Rightarrow> string \<Rightarrow> message \<Rightarrow> go_int \<Rightarrow> SnapshotState option" where
  "capture server sender msg sid =
     (if capturing server sid sender
      then map_option
             (\<lambda>st. st\<lparr>messages := messages st @ [SnapshotMessage sender (Id server) msg]\<rparr>)
             (snapshot server sid)
      else snapshot server sid)"

text \<open>
  The marker branch, after the optional \<open>StartSnapshot\<close>: set the entry of the sender in
  the marker map of the snapshot (writing into a nil map panics), then compare the
  number of markers with the number of inbound links.
\<close>

definition recordMarker :: "Server \<Rightarrow> go_int \<Rightarrow> string \<Rightarrow> error + Server" where
  "recordMarker server sid sender =
     (if \<not> markerSeen server sid sender
      then (case inReceivedMarker server sid of
              None \<Rightarrow> Inl NilMapAssignment
            | Some m \<Rightarrow>
                Inr (server\<lparr>inReceivedMarker := (inReceivedMarker server)(sid \<mapsto> m(sender \<mapsto> True))\<rparr>))
      else Inr server)"

definition notifyIfComplete :: "Server \<Rightarrow> go_int \<Rightarrow> sim_call list" where
  "notifyIfComplete server sid =
     (if len (markersOf server sid) = len (inboundLinks server)
      then [ChanSend sid (snapshot server sid), NotifySnapshotComplete (Id server) sid]
      else [])"

fun HandlePacket ::
  "(string \<Rightarrow> go_int) \<Rightarrow> Server \<Rightarrow> string \<Rightarrow> message \<Rightarrow> error + (Server \<times> sim_call list)"
where
  "HandlePacket rt server sender (MarkerMessage sid) =
     (case (if \<not> hasReceivedSnapshot server sid then StartSnapshot rt server sid
            else (server, [])) of
        (server1, log1) \<Rightarrow>
          (case recordMarker server1 sid sender of
             Inl e \<Rightarrow> Inl e
           | Inr server2 \<Rightarrow> Inr (server2, log1 @ notifyIfComplete server2 sid)))"
| "HandlePacket rt server sender (TokenMessage n) =
     (if \<exists>sid \<in> dom (receivedSnapshot server).
           capturing server sid sender \<and> snapshot server sid = None
      then Inl NilPointerDereference
      else Inr (server\<lparr>snapshot := capture server sender (TokenMessage n),
                       Tokens := Tokens server + n\<rparr>, []))"
| "HandlePacket rt server sender OtherMessage = Inr (server, [])"

subsection \<open>\<open>AddOutboundLink\<close>\<close>

text \<open>
  \<open>AddOutboundLink\<close> writes to two server objects, so it works on the store of
  servers: a map from the address of a server object to its state.  The simulator keeps
  each server under its id, and the id is the address here.  \<open>server == dest\<close> compares
  the two pointers.  A pointer to no server object cannot be dereferenced (\<open>None\<close>).
\<close>

definition AddOutboundLink ::
  "string \<Rightarrow> string \<Rightarrow> (string \<rightharpoonup> Server) \<Rightarrow> (string \<rightharpoonup> Server) option"
where
  "AddOutboundLink sp dp heap =
     (if sp = dp then Some heap
      else (case heap sp of
              None \<Rightarrow> None
            | Some server \<Rightarrow>
                (case heap dp of
                   None \<Rightarrow> None
                 | Some d \<Rightarrow>
                     let l = \<lparr>src = Id server, dest = Id d, events = []\<rparr>
                     in Some (heap(sp \<mapsto> server\<lparr>outboundLinks := (outboundLinks server)(Id d \<mapsto> l)\<rparr>,
                                   dp \<mapsto> d\<lparr>inboundLinks := (inboundLinks d)(Id server \<mapsto> (sp, Id d))\<rparr>)))))"

section \<open>Auxiliary notions for the properties of one server\<close>

text \<open>What \<open>SendToNeighbors\<close> pushes on the link under key \<open>k\<close>, and what it logs for it.\<close>

definition pushEvent :: "(string \<Rightarrow> go_int) \<Rightarrow> string \<Rightarrow> message \<Rightarrow> string \<Rightarrow> Link \<Rightarrow> Link" where
  "pushEvent rt ident msg k link =
     link\<lparr>events := events link @ [SendMessageEvent ident (dest link) msg (rt k)]\<rparr>"

definition sentLog :: "Server \<Rightarrow> message \<Rightarrow> string \<Rightarrow> sim_call" where
  "sentLog server msg k =
     (case outboundLinks server k of
        None \<Rightarrow> RecordEvent (Id server) (SentMessageEvent (Id server) k msg)
      | Some link \<Rightarrow> RecordEvent (Id server) (SentMessageEvent (Id server) (dest link) msg))"

text \<open>The state in which an operation that may end in a fatal error stops.\<close>

definition stateOf :: "('e \<times> Server \<times> 'c) + (Server \<times> 'c) \<Rightarrow> Server" where
  "stateOf r = (case r of Inl (e, server, log) \<Rightarrow> server | Inr (server, log) \<Rightarrow> server)"

text \<open>The captured messages of a server for a snapshot id; none when it has no record.\<close>

definition capturedMessages :: "Server \<Rightarrow> go_int \<Rightarrow> SnapshotMessage list" where
  "capturedMessages server sid =
     (case snapshot server sid of None \<Rightarrow> [] | Some st \<Rightarrow> messages st)"

text \<open>
  The data-model invariant of the spec: a started snapshot has its record and its marker
  map, and the flags stored in the maps are \<open>true\<close>.
\<close>

definition snapshotsConsistent :: "Server \<Rightarrow> bool" where
  "snapshotsConsistent server \<longleftrightarrow>
     (\<forall>sid. (hasReceivedSnapshot server sid \<longrightarrow>
               inReceivedMarker server sid \<noteq> None \<and>
               (\<exists>st. snapshot server sid = Some st \<and> tokens st (Id server) \<noteq> None)) \<and>
            (\<not> hasReceivedSnapshot server sid \<longrightarrow> inReceivedMarker server sid = None) \<and>
            (\<forall>a b. markersOf server sid a = Some b \<longrightarrow> b))"

text \<open>The server state right after the assignments of \<open>StartSnapshot\<close>, before the broadcast.\<close>

definition started :: "Server \<Rightarrow> go_int \<Rightarrow> Server" where
  "started server sid =
     server\<lparr>inReceivedMarker := (inReceivedMarker server)(sid \<mapsto> Map.empty),
            receivedSnapshot := (receivedSnapshot server)(sid \<mapsto> True),
            snapshot := (snapshot server)(sid \<mapsto>
              \<lparr>snap_id = sid, tokens = [Id server \<mapsto> Tokens server], messages = []\<rparr>)\<rparr>"

text \<open>
  A server \<open>B\<close> with inbound links from \<open>A\<close> and \<open>C\<close> and an outbound link to \<open>A\<close>.  It
  started snapshot 1 holding five tokens, then received the marker of \<open>C\<close> and captured
  three tokens sent by \<open>A\<close>.
\<close>

definition recordingServer :: Server where
  "recordingServer =
     \<lparr>Id = ''B'', Tokens = 8,
      outboundLinks = [''A'' \<mapsto> \<lparr>src = ''B'', dest = ''A'', events = []\<rparr>],
      inboundLinks = [''A'' \<mapsto> (''A'', ''B''), ''C'' \<mapsto> (''C'', ''B'')],
      receivedSnapshot = [1 \<mapsto> True], inReceivedMarker = [1 \<mapsto> [''C'' \<mapsto> True]],
      snapshot = [1 \<mapsto> \<lparr>snap_id = 1, tokens = [''B'' \<mapsto> 5],
                         messages = [SnapshotMessage ''A'' ''B'' (TokenMessage 3)]\<rparr>]\<rparr>"

section \<open>The system of servers\<close>

text \<open>
  Modelled from the spec: the simulator that owns the servers, pops the link queues and
  receives the completion reports is not in \<open>server.go\<close>.  The spec fixes its contract:
  one event is delivered at a time; every link is a FIFO queue, events are delivered once
  and in the order sent; links may be served in any order; a snapshot is started at most
  once per server and snapshot id; the topology is fixed before the run.  A system is the
  store of servers together with the calls the servers have made on the simulator.
\<close>

record system =
  servers :: "string \<rightharpoonup> Server"
  calls :: "sim_call list"

text \<open>
  Modelled from the spec: what the scheduler can do.  \<open>PassTokens p n d rt\<close> calls
  \<open>SendTokens(n, d)\<close> on server \<open>p\<close>; \<open>Snapshot p sid rt\<close> calls \<open>StartSnapshot(sid)\<close> on
  \<open>p\<close>; \<open>Deliver a b rt\<close> pops the oldest event of the link from \<open>a\<close> to \<open>b\<close> and calls
  \<open>HandlePacket(a, message)\<close> on \<open>b\<close>.  \<open>rt\<close> supplies the receive times.
\<close>

datatype action =
    PassTokens string go_int string go_int
  | Snapshot string go_int "string \<Rightarrow> go_int"
  | Deliver string string "string \<Rightarrow> go_int"

datatype failure =
    Fatal error
  | NoSuchServer
  | NothingToDeliver
  | AlreadyStarted

text \<open>
  Modelled from the spec: one action of the scheduler.  A fatal error or panic of the
  server ends the run; an action that the contract excludes is refused.
\<close>

fun step :: "system \<Rightarrow> action \<Rightarrow> failure + system" where
  "step w (PassTokens p n d rt) =
     (case servers w p of
        None \<Rightarrow> Inl NoSuchServer
      | Some server \<Rightarrow>
          (case SendTokens rt server n d of
             Inl (e, server', log) \<Rightarrow> Inl (Fatal e)
           | Inr (server', log) \<Rightarrow>
               Inr (w\<lparr>servers := (servers w)(p \<mapsto> server'), calls := calls w @ log\<rparr>)))"
| "step w (Snapshot p sid rt) =
     (case servers w p of
        None \<Rightarrow> Inl NoSuchServer
      | Some server \<Rightarrow>
          if hasReceivedSnapshot server sid then Inl AlreadyStarted
          else (case StartSnapshot rt server sid of
                  (server', log) \<Rightarrow>
                    Inr (w\<lparr>servers := (servers w)(p \<mapsto> server'), calls := calls w @ log\<rparr>)))"
| "step w (Deliver a b rt) =
     (case servers w a of
        None \<Rightarrow> Inl NoSuchServer
      | Some sa \<Rightarrow>
          (case outboundLinks sa b of
             None \<Rightarrow> Inl NothingToDeliver
           | Some link \<Rightarrow>
               (case events link of
                  [] \<Rightarrow> Inl NothingToDeliver
                | e # es \<Rightarrow>
                    let heap1 = (servers w)(a \<mapsto>
                          sa\<lparr>outboundLinks := (outboundLinks sa)(b \<mapsto> link\<lparr>events := es\<rparr>)\<rparr>)
                    in (case heap1 b of
                          None \<Rightarrow> Inl NoSuchServer
                        | Some sb \<Rightarrow>
                            (case HandlePacket rt sb a (ev_message e) of
                               Inl err \<Rightarrow> Inl (Fatal err)
                             | Inr (sb', log) \<Rightarrow>
                                 Inr (w\<lparr>servers := heap1(b \<mapsto> sb'),
                                        calls := calls w @ log\<rparr>))))))"

text \<open>
  Modelled from the spec: a run is a sequence of actions of the scheduler; it ends at the
  first failure.
\<close>

fun run :: "system \<Rightarrow> action list \<Rightarrow> failure + system" where
  "run w [] = Inr w"
| "run w (act # acts) = (case step w act of Inl f \<Rightarrow> Inl f | Inr w' \<Rightarrow> run w' acts)"

text \<open>
  Modelled from the spec: building the system before the run.  Every server is made by
  \<open>NewServer\<close> and stored under its id, then the links are added by \<open>AddOutboundLink\<close>.
\<close>

fun addServers :: "(string \<times> go_int) list \<Rightarrow> (string \<rightharpoonup> Server) \<Rightarrow> (string \<rightharpoonup> Server)" where
  "addServers [] heap = heap"
| "addServers ((ident, toks) # rest) heap = addServers rest (heap(ident \<mapsto> NewServer ident toks))"

fun addLinks :: "(string \<times> string) list \<Rightarrow> (string \<rightharpoonup> Server) \<Rightarrow> (string \<rightharpoonup> Server) option" where
  "addLinks [] heap = Some heap"
| "addLinks ((a, b) # rest) heap =
     (case AddOutboundLink a b heap of None \<Rightarrow> None | Some heap' \<Rightarrow> addLinks rest heap')"

definition newSystem :: "(string \<times> go_int) list \<Rightarrow> (string \<times> string) list \<Rightarrow> system option" where
  "newSystem srvs links =
     map_option (\<lambda>heap. \<lparr>servers = heap, calls = []\<rparr>) (addLinks links (addServers srvs Map.empty))"

subsection \<open>Quantities of a system\<close>

text \<open>The tokens a message carries.\<close>

fun payload :: "message \<Rightarrow> go_int" where
  "payload (TokenMessage n) = n"
| "payload (MarkerMessage sid) = 0"
| "payload OtherMessage = 0"

text \<open>The tokens in flight in a queue.\<close>

definition inFlight :: "SendMessageEvent list \<Rightarrow> go_int" where
  "inFlight es = sum_list (map (\<lambda>e. payload (ev_message e)) es)"

text \<open>The tokens in flight on all outbound links of a server.\<close>

definition outQueued :: "Server \<Rightarrow> go_int" where
  "outQueued server =
     (\<Sum>d \<in> dom (outboundLinks server).
        case outboundLinks server d of None \<Rightarrow> 0 | Some link \<Rightarrow> inFlight (events link))"

text \<open>The resources of the system: the tokens held by the servers and the tokens in flight.\<close>

definition systemTotal :: "(string \<rightharpoonup> Server) \<Rightarrow> go_int" where
  "systemTotal heap =
     (\<Sum>p \<in> dom heap. case heap p of None \<Rightarrow> 0 | Some server \<Rightarrow> Tokens server + outQueued server)"

text \<open>
  What the record of a server for a snapshot id accounts for: its \<open>localResourceCount\<close>,
  the entry of the server in \<open>tokens\<close>, and the payloads of its captured messages.
\<close>

definition recorded :: "Server \<Rightarrow> go_int \<Rightarrow> go_int" where
  "recorded server sid =
     (case snapshot server sid of
        None \<Rightarrow> 0
      | Some st \<Rightarrow>
          (case tokens st (Id server) of None \<Rightarrow> 0 | Some t \<Rightarrow> t) +
          sum_list (map (\<lambda>m. payload (sm_message m)) (messages st)))"

definition snapshotTotal :: "(string \<rightharpoonup> Server) \<Rightarrow> go_int \<Rightarrow> go_int" where
  "snapshotTotal heap sid =
     (\<Sum>p \<in> dom heap. case heap p of None \<Rightarrow> 0 | Some server \<Rightarrow> recorded server sid)"

text \<open>
  A server has completed a snapshot when it has started it and the completion test of
  \<open>HandlePacket\<close> holds: as many markers as inbound links.
\<close>

definition snapshotComplete :: "Server \<Rightarrow> go_int \<Rightarrow> bool" where
  "snapshotComplete server sid \<longleftrightarrow>
     hasReceivedSnapshot server sid \<and> len (markersOf server sid) = len (inboundLinks server)"

definition allComplete :: "(string \<rightharpoonup> Server) \<Rightarrow> go_int \<Rightarrow> bool" where
  "allComplete heap sid \<longleftrightarrow> (\<forall>p server. heap p = Some server \<longrightarrow> snapshotComplete server sid)"

definition noneStarted :: "(string \<rightharpoonup> Server) \<Rightarrow> go_int \<Rightarrow> bool" where
  "noneStarted heap sid \<longleftrightarrow> (\<forall>p server. heap p = Some server \<longrightarrow> \<not> hasReceivedSnapshot server sid)"

text \<open>How often server \<open>p\<close> has reported the completion of snapshot \<open>sid\<close>.\<close>

definition notifications :: "sim_call list \<Rightarrow> string \<Rightarrow> go_int \<Rightarrow> nat" where
  "notifications cs p sid = count_list cs (NotifySnapshotComplete p sid)"

section \<open>Auxiliary notions for the properties of the system\<close>

text \<open>The queue of the outbound link of a server to \<open>d\<close>; empty when there is no link.\<close>

definition queueOf :: "Server \<Rightarrow> string \<Rightarrow> SendMessageEvent list" where
  "queueOf server d = (case outboundLinks server d of None \<Rightarrow> [] | Some link \<Rightarrow> events link)"

text \<open>
  What a server contributes to the cut of snapshot \<open>sid\<close>: what its record accounts for
  once it has started the snapshot, the tokens it holds before.
\<close>

definition val :: "Server \<Rightarrow> go_int \<Rightarrow> go_int" where
  "val server sid = (if hasReceivedSnapshot server sid then recorded server sid else Tokens server)"

text \<open>The number of markers of snapshot \<open>sid\<close> in a queue, and the events ahead of the first.\<close>

definition markerCount :: "go_int \<Rightarrow> SendMessageEvent list \<Rightarrow> nat" where
  "markerCount sid es = length (filter (\<lambda>e. ev_message e = MarkerMessage sid) es)"

definition beforeMarker :: "go_int \<Rightarrow> SendMessageEvent list \<Rightarrow> SendMessageEvent list" where
  "beforeMarker sid es = takeWhile (\<lambda>e. ev_message e \<noteq> MarkerMessage sid) es"

text \<open>What \<open>StartSnapshot\<close> appends to the queue of the link to \<open>d\<close>.\<close>

definition markerEvent :: "(string \<Rightarrow> go_int) \<Rightarrow> Server \<Rightarrow> go_int \<Rightarrow> string \<Rightarrow> SendMessageEvent list" where
  "markerEvent rt server sid d =
     (case outboundLinks server d of
        None \<Rightarrow> []
      | Some link \<Rightarrow> [SendMessageEvent (Id server) (dest link) (MarkerMessage sid) (rt d)])"

text \<open>
  The two stages of the marker branch of \<open>HandlePacket\<close>: \<open>begun\<close> starts the snapshot
  unless it is started, \<open>afterMarker\<close> enters the sender in the marker map.
\<close>

definition begun :: "(string \<Rightarrow> go_int) \<Rightarrow> Server \<Rightarrow> go_int \<Rightarrow> Server \<times> sim_call list" where
  "begun rt server sid =
     (if \<not> hasReceivedSnapshot server sid then StartSnapshot rt server sid else (server, []))"

definition afterMarker :: "Server \<Rightarrow> go_int \<Rightarrow> string \<Rightarrow> Server" where
  "afterMarker server sid a =
     server\<lparr>inReceivedMarker := (inReceivedMarker server)(sid \<mapsto> (markersOf server sid)(a \<mapsto> True))\<rparr>"

text \<open>The same notions for a server of the store, given by its address.\<close>

definition queue :: "(string \<rightharpoonup> Server) \<Rightarrow> string \<Rightarrow> string \<Rightarrow> SendMessageEvent list" where
  "queue heap a b = (case heap a of None \<Rightarrow> [] | Some server \<Rightarrow> queueOf server b)"

definition startedAt :: "(string \<rightharpoonup> Server) \<Rightarrow> go_int \<Rightarrow> string \<Rightarrow> bool" where
  "startedAt heap sid p = (case heap p of None \<Rightarrow> False | Some server \<Rightarrow> hasReceivedSnapshot server sid)"

definition markersAt :: "(string \<rightharpoonup> Server) \<Rightarrow> go_int \<Rightarrow> string \<Rightarrow> (string \<rightharpoonup> bool)" where
  "markersAt heap sid b = (case heap b of None \<Rightarrow> Map.empty | Some server \<Rightarrow> markersOf server sid)"

definition seenAt :: "(string \<rightharpoonup> Server) \<Rightarrow> go_int \<Rightarrow> string \<Rightarrow> string \<Rightarrow> bool" where
  "seenAt heap sid b a \<longleftrightarrow> markersAt heap sid b a = Some True"

definition valAt :: "(string \<rightharpoonup> Server) \<Rightarrow> go_int \<Rightarrow> string \<Rightarrow> go_int" where
  "valAt heap sid p = (case heap p of None \<Rightarrow> 0 | Some server \<Rightarrow> val server sid)"

text \<open>The links of the system, as pairs of source and destination.\<close>

definition channels :: "(string \<rightharpoonup> Server) \<Rightarrow> (string \<times> string) set" where
  "channels heap = {(a, b). \<exists>server. heap a = Some server \<and> b \<in> dom (outboundLinks server)}"

text \<open>
  The tokens of a link that belong to the cut of snapshot \<open>sid\<close>: those ahead of the
  marker, as long as the destination has not received the marker.
\<close>

definition pending :: "(string \<rightharpoonup> Server) \<Rightarrow> go_int \<Rightarrow> string \<times> string \<Rightarrow> go_int" where
  "pending heap sid c =
     (case c of (a, b) \<Rightarrow>
        if seenAt heap sid b a then 0 else inFlight (beforeMarker sid (queue heap a b)))"

definition cutOf :: "(string \<rightharpoonup> Server) \<Rightarrow> go_int \<Rightarrow> go_int" where
  "cutOf heap sid = (\<Sum>p \<in> dom heap. valAt heap sid p) + (\<Sum>c \<in> channels heap. pending heap sid c)"

text \<open>
  The topology that \<open>NewServer\<close> and \<open>AddOutboundLink\<close> build: finitely many servers, each
  stored under its id, no link from a server to itself, and every outbound link entered
  as inbound link at its destination.
\<close>

definition topologyOk :: "(string \<rightharpoonup> Server) \<Rightarrow> bool" where
  "topologyOk heap \<longleftrightarrow>
     finite (dom heap) \<and>
     (\<forall>p server. heap p = Some server \<longrightarrow>
        Id server = p \<and> finite (dom (outboundLinks server)) \<and> finite (dom (inboundLinks server)) \<and>
        p \<notin> dom (outboundLinks server) \<and>
        (\<forall>d \<in> dom (outboundLinks server).
           \<exists>sd. heap d = Some sd \<and> p \<in> dom (inboundLinks sd)))"

definition serversOk :: "(string \<rightharpoonup> Server) \<Rightarrow> bool" where
  "serversOk heap \<longleftrightarrow>
     (\<forall>p server. heap p = Some server \<longrightarrow>
        snapshotsConsistent server \<and>
        (\<forall>sid. dom (markersOf server sid) \<subseteq> dom (inboundLinks server)))"

text \<open>
  One marker per link and snapshot: the source has started the snapshot if and only if
  its marker is in the queue or has been received, and never both.
\<close>

definition markersOk :: "(string \<rightharpoonup> Server) \<Rightarrow> bool" where
  "markersOk heap \<longleftrightarrow>
     (\<forall>sid a b. (a, b) \<in> channels heap \<longrightarrow>
        markerCount sid (queue heap a b) + (if seenAt heap sid b a then 1 else 0) =
          (if startedAt heap sid a then 1 else 0))"

text \<open>
  A server has reported the completion of a snapshot once if it has inbound links and a
  marker for each, and never otherwise.
\<close>

definition notificationsOk :: "system \<Rightarrow> bool" where
  "notificationsOk w \<longleftrightarrow>
     (\<forall>p server sid. servers w p = Some server \<longrightarrow>
        notifications (calls w) p sid =
          (if inboundLinks server \<noteq> Map.empty \<and>
              len (markersOf server sid) = len (inboundLinks server)
           then 1 else 0))"

definition systemOk :: "system \<Rightarrow> bool" where
  "systemOk w \<longleftrightarrow>
     topologyOk (servers w) \<and> serversOk (servers w) \<and> markersOk (servers w) \<and> notificationsOk w"

text \<open>Two server states with the same id and the same links.\<close>

definition sameShape :: "Server \<Rightarrow> Server \<Rightarrow> bool" where
  "sameShape server server' \<longleftrightarrow>
     Id server' = Id server \<and> inboundLinks server' = inboundLinks server \<and>
     dom (outboundLinks server') = dom (outboundLinks server)"

text \<open>A server after the scheduler has popped the oldest event of its link to \<open>b\<close>.\<close>

definition popped :: "Server \<Rightarrow> string \<Rightarrow> Server" where
  "popped server b =
     (case outboundLinks server b of
        None \<Rightarrow> server
      | Some link \<Rightarrow>
          server\<lparr>outboundLinks := (outboundLinks server)(b \<mapsto> link\<lparr>events := tl (events link)\<rparr>)\<rparr>)"

text \<open>A store before the run: no snapshot started, nothing in flight.\<close>

definition quiet :: "(string \<rightharpoonup> Server) \<Rightarrow> bool" where
  "quiet heap \<longleftrightarrow>
     (\<forall>p server. heap p = Some server \<longrightarrow>
        receivedSnapshot server = Map.empty \<and> inReceivedMarker server = Map.empty \<and>
        snapshot server = Map.empty \<and> (\<forall>d. queueOf server d = []))"

text \<open>The update of the records in the token branch, for a given test of the loop body.\<close>

definition captureIn ::
  "(go_int \<Rightarrow> bool) \<Rightarrow> SnapshotMessage \<Rightarrow> (go_int \<rightharpoonup> SnapshotState) \<Rightarrow> (go_int \<rightharpoonup> SnapshotState)"
where
  "captureIn c m snap =
     (\<lambda>sid. if c sid then map_option (\<lambda>st. st\<lparr>messages := messages st @ [m]\<rparr>) (snap sid)
            else snap sid)"
text \<open>
  Two servers \<open>A\<close> and \<open>B\<close> linked both ways, holding 10 and 3 tokens: the system as
  built, after \<open>A\<close> has sent 4 tokens, and after snapshot 1, started by \<open>A\<close> while those
  tokens and 2 tokens of \<open>B\<close> were in flight, is complete.
\<close>

definition raceStart :: system where
  "raceStart =
     \<lparr>servers =
        [''B'' \<mapsto>
         \<lparr>Id = ''B'', Tokens = 3,
          outboundLinks = [''A'' \<mapsto> \<lparr>src = ''B'', dest = ''A'', events = []\<rparr>],
          inboundLinks = [''A'' \<mapsto> (''A'', ''B'')],
          receivedSnapshot = Map.empty, inReceivedMarker = Map.empty, snapshot = Map.empty\<rparr>,
         ''A'' \<mapsto>
         \<lparr>Id = ''A'', Tokens = 10,
          outboundLinks = [''B'' \<mapsto> \<lparr>src = ''A'', dest = ''B'', events = []\<rparr>],
          inboundLinks = [''B'' \<mapsto> (''B'', ''A'')],
          receivedSnapshot = Map.empty, inReceivedMarker = Map.empty, snapshot = Map.empty\<rparr>],
      calls = []\<rparr>"

definition raceBefore :: system where
  "raceBefore =
     \<lparr>servers =
        [''B'' \<mapsto>
         \<lparr>Id = ''B'', Tokens = 3,
          outboundLinks = [''A'' \<mapsto> \<lparr>src = ''B'', dest = ''A'', events = []\<rparr>],
          inboundLinks = [''A'' \<mapsto> (''A'', ''B'')],
          receivedSnapshot = Map.empty, inReceivedMarker = Map.empty, snapshot = Map.empty\<rparr>,
         ''A'' \<mapsto>
         \<lparr>Id = ''A'', Tokens = 6,
          outboundLinks = [''B'' \<mapsto> \<lparr>src = ''A'', dest = ''B'',
            events = [SendMessageEvent ''A'' ''B'' (TokenMessage 4) 1]\<rparr>],
          inboundLinks = [''B'' \<mapsto> (''B'', ''A'')],
          receivedSnapshot = Map.empty, inReceivedMarker = Map.empty, snapshot = Map.empty\<rparr>],
      calls = [RecordEvent ''A'' (SentMessageEvent ''A'' ''B'' (TokenMessage 4))]\<rparr>"

definition raceEnd :: system where
  "raceEnd =
     \<lparr>servers =
        [''B'' \<mapsto>
         \<lparr>Id = ''B'', Tokens = 5,
          outboundLinks = [''A'' \<mapsto> \<lparr>src = ''B'', dest = ''A'', events = []\<rparr>],
          inboundLinks = [''A'' \<mapsto> (''A'', ''B'')],
          receivedSnapshot = [1 \<mapsto> True], inReceivedMarker = [1 \<mapsto> [''A'' \<mapsto> True]],
          snapshot = [1 \<mapsto> \<lparr>snap_id = 1, tokens = [''B'' \<mapsto> 5], messages = []\<rparr>]\<rparr>,
         ''A'' \<mapsto>
         \<lparr>Id = ''A'', Tokens = 8,
          outboundLinks = [''B'' \<mapsto> \<lparr>src = ''A'', dest = ''B'', events = []\<rparr>],
          inboundLinks = [''B'' \<mapsto> (''B'', ''A'')],
          receivedSnapshot = [1 \<mapsto> True], inReceivedMarker = [1 \<mapsto> [''B'' \<mapsto> True]],
          snapshot = [1 \<mapsto> \<lparr>snap_id = 1, tokens = [''A'' \<mapsto> 6],
                              messages = [SnapshotMessage ''B'' ''A'' (TokenMessage 2)]\<rparr>]\<rparr>],
      calls =
        [RecordEvent ''A'' (SentMessageEvent ''A'' ''B'' (TokenMessage 4)),
         RecordEvent ''A'' (SentMessageEvent ''A'' ''B'' (MarkerMessage 1)),
         RecordEvent ''B'' (SentMessageEvent ''B'' ''A'' (TokenMessage 2)),
         RecordEvent ''B'' (SentMessageEvent ''B'' ''A'' (MarkerMessage 1)),
         ChanSend 1 (Some \<lparr>snap_id = 1, tokens = [''B'' \<mapsto> 5], messages = []\<rparr>),
         NotifySnapshotComplete ''B'' 1,
         ChanSend 1 (Some \<lparr>snap_id = 1, tokens = [''A'' \<mapsto> 6],
                           messages = [SnapshotMessage ''B'' ''A'' (TokenMessage 2)]\<rparr>),
         NotifySnapshotComplete ''A'' 1]\<rparr>"

text \<open>What the scheduler does between \<open>raceBefore\<close> and \<open>raceEnd\<close>.\<close>

definition raceActions :: "action list" where
  "raceActions =
     [Snapshot ''A'' 1 (\<lambda>_. 2), PassTokens ''B'' 2 ''A'' 3,
      Deliver ''A'' ''B'' (\<lambda>_. 4), Deliver ''B'' ''A'' (\<lambda>_. 5),
      Deliver ''A'' ''B'' (\<lambda>_. 6), Deliver ''B'' ''A'' (\<lambda>_. 7)]"

text \<open>
  A server \<open>A\<close> with a link to \<open>B\<close> and no inbound link: the system as built, and after
  \<open>A\<close> has started snapshot 1 and \<open>B\<close> has received the marker.
\<close>

definition oneWayStart :: system where
  "oneWayStart =
     \<lparr>servers =
        [''A'' \<mapsto>
         \<lparr>Id = ''A'', Tokens = 1,
          outboundLinks = [''B'' \<mapsto> \<lparr>src = ''A'', dest = ''B'', events = []\<rparr>],
          inboundLinks = Map.empty,
          receivedSnapshot = Map.empty, inReceivedMarker = Map.empty, snapshot = Map.empty\<rparr>,
         ''B'' \<mapsto>
         \<lparr>Id = ''B'', Tokens = 0, outboundLinks = Map.empty,
          inboundLinks = [''A'' \<mapsto> (''A'', ''B'')],
          receivedSnapshot = Map.empty, inReceivedMarker = Map.empty, snapshot = Map.empty\<rparr>],
      calls = []\<rparr>"

definition oneWayEnd :: system where
  "oneWayEnd =
     \<lparr>servers =
        [''A'' \<mapsto>
         \<lparr>Id = ''A'', Tokens = 1,
          outboundLinks = [''B'' \<mapsto> \<lparr>src = ''A'', dest = ''B'', events = []\<rparr>],
          inboundLinks = Map.empty,
          receivedSnapshot = [1 \<mapsto> True], inReceivedMarker = [1 \<mapsto> Map.empty],
          snapshot = [1 \<mapsto> \<lparr>snap_id = 1, tokens = [''A'' \<mapsto> 1], messages = []\<rparr>]\<rparr>,
         ''B'' \<mapsto>
         \<lparr>Id = ''B'', Tokens = 0, outboundLinks = Map.empty,
          inboundLinks = [''A'' \<mapsto> (''A'', ''B'')],
          receivedSnapshot = [1 \<mapsto> True], inReceivedMarker = [1 \<mapsto> [''A'' \<mapsto> True]],
          snapshot = [1 \<mapsto> \<lparr>snap_id = 1, tokens = [''B'' \<mapsto> 0], messages = []\<rparr>]\<rparr>],
      calls =
        [RecordEvent ''A'' (SentMessageEvent ''A'' ''B'' (MarkerMessage 1)),
         ChanSend 1 (Some \<lparr>snap_id = 1, tokens = [''B'' \<mapsto> 0], messages = []\<rparr>),
         NotifySnapshotComplete ''B'' 1]\<rparr>"
section \<open>Properties of one server\<close>

subsection \<open>The broadcast loop\<close>

lemma sendOne_None:
  "outboundLinks server k = None \<Longrightarrow> sendOne rt msg k (server, log) = (server, log)"
  by (simp add: sendOne_def)

lemma sendOne_Some:
  "outboundLinks server k = Some link \<Longrightarrow>
   sendOne rt msg k (server, log) =
     (server\<lparr>outboundLinks := (outboundLinks server)(k \<mapsto> pushEvent rt (Id server) msg k link)\<rparr>,
      log @ [sentLog server msg k])"
  by (simp add: sendOne_def pushEvent_def sentLog_def)

lemma fold_sendOne:
  "distinct ks \<Longrightarrow>
   fold (sendOne rt msg) ks (server, log) =
     (server\<lparr>outboundLinks := (\<lambda>k. if k \<in> set ks
          then map_option (pushEvent rt (Id server) msg k) (outboundLinks server k)
          else outboundLinks server k)\<rparr>,
      log @ map (sentLog server msg) (filter (\<lambda>k. k \<in> dom (outboundLinks server)) ks))"
proof (induction ks arbitrary: server log)
  case Nil
  then show ?case by simp
next
  case (Cons k ks)
  then have d: "distinct ks" and nk: "k \<notin> set ks" by simp_all
  show ?case
  proof (cases "outboundLinks server k")
    case None
    then show ?thesis
      using Cons.IH [OF d, of server log] nk
      by (auto simp: sendOne_None fun_eq_iff intro!: Server.equality)
  next
    case (Some link)
    let ?s1 = "server\<lparr>outboundLinks := (outboundLinks server)(k \<mapsto> pushEvent rt (Id server) msg k link)\<rparr>"
    have m: "map (sentLog ?s1 msg) (filter (\<lambda>k. k \<in> dom (outboundLinks ?s1)) ks)
             = map (sentLog server msg) (filter (\<lambda>k. k \<in> dom (outboundLinks server)) ks)"
      using nk by (intro arg_cong2 [where f = map] filter_cong ext map_cong) (auto simp: sentLog_def)
    have "fold (sendOne rt msg) (k # ks) (server, log)
          = fold (sendOne rt msg) ks (?s1, log @ [sentLog server msg k])"
      using Some by (simp add: sendOne_Some)
    also have "\<dots> = (?s1\<lparr>outboundLinks := (\<lambda>k'. if k' \<in> set ks
          then map_option (pushEvent rt (Id ?s1) msg k') (outboundLinks ?s1 k')
          else outboundLinks ?s1 k')\<rparr>,
        (log @ [sentLog server msg k]) @
          map (sentLog ?s1 msg) (filter (\<lambda>k. k \<in> dom (outboundLinks ?s1)) ks))"
      by (rule Cons.IH [OF d])
    also have "\<dots> = (server\<lparr>outboundLinks := (\<lambda>k'. if k' \<in> set (k # ks)
          then map_option (pushEvent rt (Id server) msg k') (outboundLinks server k')
          else outboundLinks server k')\<rparr>,
      log @ map (sentLog server msg) (filter (\<lambda>k. k \<in> dom (outboundLinks server)) (k # ks)))"
      unfolding m using Some nk by (auto simp: fun_eq_iff intro!: Server.equality)
    finally show ?thesis .
  qed
qed

lemma getSortedKeys_set: "finite (dom m) \<Longrightarrow> set (getSortedKeys m) = dom m"
  by (simp add: getSortedKeys_def)

lemma getSortedKeys_distinct: "distinct (getSortedKeys m)"
  by (simp add: getSortedKeys_def)

lemma getSortedKeys_sorted: "sorted (getSortedKeys m)"
  by (simp add: getSortedKeys_def)

text \<open>The loop changes nothing but the outbound links.\<close>

lemma SendToNeighbors_frame:
  "\<exists>out. fst (SendToNeighbors rt server msg) = server\<lparr>outboundLinks := out\<rparr>"
  unfolding SendToNeighbors_def
  by (simp add: fold_sendOne getSortedKeys_distinct) (rule exI, rule refl)

lemma SendToNeighbors_eq:
  assumes "finite (dom (outboundLinks server))"
  shows "SendToNeighbors rt server msg =
     (server\<lparr>outboundLinks :=
         (\<lambda>k. map_option (pushEvent rt (Id server) msg k) (outboundLinks server k))\<rparr>,
      map (sentLog server msg) (getSortedKeys (outboundLinks server)))"
proof -
  have f: "filter (\<lambda>k. k \<in> dom (outboundLinks server)) (getSortedKeys (outboundLinks server))
        = getSortedKeys (outboundLinks server)"
    using assms by (simp add: getSortedKeys_set)
  have "(\<lambda>k. if k \<in> set (getSortedKeys (outboundLinks server))
          then map_option (pushEvent rt (Id server) msg k) (outboundLinks server k)
          else outboundLinks server k) =
        (\<lambda>k. map_option (pushEvent rt (Id server) msg k) (outboundLinks server k))"
  proof (rule ext)
    fix k
    show "(if k \<in> set (getSortedKeys (outboundLinks server))
          then map_option (pushEvent rt (Id server) msg k) (outboundLinks server k)
          else outboundLinks server k) =
        map_option (pushEvent rt (Id server) msg k) (outboundLinks server k)"
      using assms by (cases "outboundLinks server k") (auto simp: getSortedKeys_set)
  qed
  then show ?thesis
    unfolding SendToNeighbors_def
    by (simp add: fold_sendOne getSortedKeys_distinct f)
qed

subsection \<open>\<open>StartSnapshot\<close>\<close>

lemma StartSnapshot_frame:
  "\<exists>out. fst (StartSnapshot rt server sid) = (started server sid)\<lparr>outboundLinks := out\<rparr>"
  unfolding StartSnapshot_def started_def by (rule SendToNeighbors_frame)

lemma StartSnapshot_eq:
  assumes "finite (dom (outboundLinks server))"
  shows "StartSnapshot rt server sid =
     ((started server sid)\<lparr>outboundLinks :=
         (\<lambda>k. map_option (pushEvent rt (Id server) (MarkerMessage sid) k) (outboundLinks server k))\<rparr>,
      map (sentLog server (MarkerMessage sid)) (getSortedKeys (outboundLinks server)))"
proof -
  have "sentLog (started server sid) (MarkerMessage sid) = sentLog server (MarkerMessage sid)"
    by (simp add: fun_eq_iff sentLog_def started_def split: option.splits)
  then show ?thesis
    using assms SendToNeighbors_eq [of "started server sid" rt "MarkerMessage sid"]
    by (simp add: StartSnapshot_def started_def)
qed

lemma recordMarker_frame:
  "recordMarker server sid a = Inr server' \<Longrightarrow>
   \<exists>irm. server' = server\<lparr>inReceivedMarker := irm\<rparr>"
  by (auto simp: recordMarker_def split: if_splits option.splits
           intro: exI [where x = "inReceivedMarker server"])

lemma HandlePacket_marker_started:
  assumes "hasReceivedSnapshot server sid"
  shows "HandlePacket rt server a (MarkerMessage sid) =
     (case recordMarker server sid a of
        Inl e \<Rightarrow> Inl e
      | Inr server2 \<Rightarrow> Inr (server2, notifyIfComplete server2 sid))"
  using assms by (simp split: sum.splits)

lemma notifyIfComplete_no_RecordEvent: "RecordEvent x e \<notin> set (notifyIfComplete server sid)"
  by (simp add: notifyIfComplete_def)

lemma markerSeen_iff:
  "markerSeen server sid a \<longleftrightarrow> (\<exists>m. inReceivedMarker server sid = Some m \<and> m a = Some True)"
  by (auto simp: markerSeen_def markersOf_def split: option.splits)

lemma recordMarker_markerSeen:
  "recordMarker server sid a = Inr server' \<Longrightarrow> markerSeen server sid b \<Longrightarrow> markerSeen server' sid b"
  unfolding recordMarker_def markerSeen_iff
  by (auto split: if_splits option.splits)

text \<open>
  Claim C9.  Handling a marker message never changes the token count of the server:
  whenever \<open>HandlePacket\<close> returns from a \<open>MarkerMessage\<close>, field \<open>Tokens\<close> is what it
  was before the call, whether or not the marker started the snapshot.
\<close>

theorem HandlePacket_marker_keeps_Tokens:
  assumes "HandlePacket rt server a (MarkerMessage sid) = Inr (server', log)"
  shows "Tokens server' = Tokens server"
proof -
  obtain server1 log1 where
    s1: "(if \<not> hasReceivedSnapshot server sid then StartSnapshot rt server sid
          else (server, [])) = (server1, log1)"
    by (cases "if \<not> hasReceivedSnapshot server sid then StartSnapshot rt server sid
               else (server, [])")
  have t1: "Tokens server1 = Tokens server"
  proof (cases "hasReceivedSnapshot server sid")
    case True
    with s1 show ?thesis by simp
  next
    case False
    obtain out where "fst (StartSnapshot rt server sid) = (started server sid)\<lparr>outboundLinks := out\<rparr>"
      using StartSnapshot_frame by blast
    with False s1 show ?thesis by (simp add: started_def)
  qed
  from assms s1 have "recordMarker server1 sid a = Inr server'"
    by (simp split: sum.splits)
  then obtain irm where "server' = server1\<lparr>inReceivedMarker := irm\<rparr>"
    using recordMarker_frame by blast
  with t1 show ?thesis by simp
qed

theorem HandlePacket_marker_keeps_Tokens_witness:
  "HandlePacket (\<lambda>_. 0) recordingServer ''A'' (MarkerMessage 1) =
     Inr (recordingServer\<lparr>inReceivedMarker := [1 \<mapsto> [''C'' \<mapsto> True, ''A'' \<mapsto> True]]\<rparr>,
          [ChanSend 1 (snapshot recordingServer 1), NotifySnapshotComplete ''B'' 1]) \<and>
   Tokens (recordingServer\<lparr>inReceivedMarker := [1 \<mapsto> [''C'' \<mapsto> True, ''A'' \<mapsto> True]]\<rparr>) = 8"
proof -
  have h: "HandlePacket (\<lambda>_. 0) recordingServer ''A'' (MarkerMessage 1) =
     Inr (recordingServer\<lparr>inReceivedMarker := [1 \<mapsto> [''C'' \<mapsto> True, ''A'' \<mapsto> True]]\<rparr>,
          [ChanSend 1 (snapshot recordingServer 1), NotifySnapshotComplete ''B'' 1])"
    by (simp add: recordingServer_def hasReceivedSnapshot_def recordMarker_def markerSeen_def
          markersOf_def notifyIfComplete_def len_def)
  from HandlePacket_marker_keeps_Tokens [OF h] h show ?thesis
    by (simp add: recordingServer_def)
qed

text \<open>
  Claim C10.  \<open>SendTokens\<close> is not atomic on the unknown-destination path: called with
  \<open>n\<close> at most the held count and a destination that has no outbound link, it stops in
  the fatal error with the send already logged and \<open>Tokens\<close> already decremented by \<open>n\<close>;
  for \<open>n\<close> other than zero the server state at the fatal error differs from the state
  before the call.
\<close>

theorem SendTokens_unknown_dest_not_atomic:
  assumes "n \<le>s Tokens server" and "outboundLinks server d = None"
  shows "SendTokens rt server n d =
           Inl (UnknownDest, server\<lparr>Tokens := Tokens server - n\<rparr>,
                [RecordEvent (Id server) (SentMessageEvent (Id server) d (TokenMessage n))]) \<and>
         (n \<noteq> 0 \<longrightarrow> stateOf (SendTokens rt server n d) \<noteq> server)"
proof -
  from assms(1) have nl: "\<not> Tokens server <s n" by (simp add: signed.not_less)
  have eq: "SendTokens rt server n d =
           Inl (UnknownDest, server\<lparr>Tokens := Tokens server - n\<rparr>,
                [RecordEvent (Id server) (SentMessageEvent (Id server) d (TokenMessage n))])"
    using nl assms(2) by (simp add: SendTokens_def Let_def)
  have "n \<noteq> 0 \<Longrightarrow> server\<lparr>Tokens := Tokens server - n\<rparr> \<noteq> server"
  proof
    assume "n \<noteq> 0" and "server\<lparr>Tokens := Tokens server - n\<rparr> = server"
    then have "Tokens (server\<lparr>Tokens := Tokens server - n\<rparr>) = Tokens server" by simp
    then have "Tokens server - n = Tokens server" by simp
    with \<open>n \<noteq> 0\<close> show False by simp
  qed
  with eq show ?thesis by (simp add: stateOf_def)
qed

theorem SendTokens_unknown_dest_not_atomic_witness:
  "(4::go_int) \<le>s Tokens (NewServer ''A'' 10) \<and> outboundLinks (NewServer ''A'' 10) ''Z'' = None \<and>
   SendTokens 0 (NewServer ''A'' 10) 4 ''Z'' =
     Inl (UnknownDest, NewServer ''A'' 6,
          [RecordEvent ''A'' (SentMessageEvent ''A'' ''Z'' (TokenMessage 4))]) \<and>
   stateOf (SendTokens 0 (NewServer ''A'' 10) 4 ''Z'') \<noteq> NewServer ''A'' 10"
proof -
  have a: "(4::go_int) \<le>s Tokens (NewServer ''A'' 10)" by (simp add: NewServer_def)
  have b: "outboundLinks (NewServer ''A'' 10) ''Z'' = None" by (simp add: NewServer_def)
  from SendTokens_unknown_dest_not_atomic [OF a b, of 0] a b show ?thesis
    by (simp add: NewServer_def stateOf_def)
qed

text \<open>
  Claim C7.  \<open>SendTokens\<close> with \<open>n\<close> greater than the held count stops in a fatal error
  and leaves the server as it was.  With \<open>n\<close> at most the held count and a linked
  destination, it decrements \<open>Tokens\<close> by \<open>n\<close> and appends the token message to the queue
  of that link.  The decrement comes first: in whatever state the operation stops, a
  changed outbound queue goes with a decremented count.
\<close>

theorem SendTokens_contract:
  "(Tokens server <s n \<longrightarrow> SendTokens rt server n d = Inl (InsufficientTokens, server, [])) \<and>
   (n \<le>s Tokens server \<longrightarrow>
      (\<forall>link. outboundLinks server d = Some link \<longrightarrow>
         SendTokens rt server n d =
           Inr (server\<lparr>Tokens := Tokens server - n,
                       outboundLinks := (outboundLinks server)(d \<mapsto>
                         link\<lparr>events := events link @
                           [SendMessageEvent (Id server) d (TokenMessage n) rt]\<rparr>)\<rparr>,
                [RecordEvent (Id server) (SentMessageEvent (Id server) d (TokenMessage n))]))) \<and>
   (outboundLinks (stateOf (SendTokens rt server n d)) \<noteq> outboundLinks server \<longrightarrow>
      Tokens (stateOf (SendTokens rt server n d)) = Tokens server - n)"
  by (auto simp: SendTokens_def Let_def stateOf_def signed.not_less split: option.splits)

theorem SendTokens_contract_witness:
  "SendTokens 7 (NewServer ''A'' 3) 4 ''B'' = Inl (InsufficientTokens, NewServer ''A'' 3, []) \<and>
   SendTokens 7 ((NewServer ''A'' 10)\<lparr>outboundLinks := [''B'' \<mapsto> \<lparr>src = ''A'', dest = ''B'', events = []\<rparr>]\<rparr>) 4 ''B'' =
     Inr ((NewServer ''A'' 6)\<lparr>outboundLinks := [''B'' \<mapsto> \<lparr>src = ''A'', dest = ''B'',
             events = [SendMessageEvent ''A'' ''B'' (TokenMessage 4) 7]\<rparr>]\<rparr>,
          [RecordEvent ''A'' (SentMessageEvent ''A'' ''B'' (TokenMessage 4))])"
  using SendTokens_contract [of "NewServer ''A'' 3" 4 7 "''B''"]
    SendTokens_contract [of "(NewServer ''A'' 10)\<lparr>outboundLinks := [''B'' \<mapsto> \<lparr>src = ''A'', dest = ''B'', events = []\<rparr>]\<rparr>" 4 7 "''B''"]
  by (simp add: NewServer_def)

subsection \<open>Token messages\<close>

lemma HandlePacket_token_Inr:
  assumes "HandlePacket rt server a (TokenMessage n) = Inr (server', log)"
  shows "server' = server\<lparr>snapshot := capture server a (TokenMessage n),
                          Tokens := Tokens server + n\<rparr>"
    and "log = []"
    and "\<And>sid. capturing server sid a \<Longrightarrow> snapshot server sid \<noteq> None"
proof -
  from assms have ok: "\<not> (\<exists>sid \<in> dom (receivedSnapshot server).
           capturing server sid a \<and> snapshot server sid = None)"
    by (auto split: if_splits)
  from assms ok show "server' = server\<lparr>snapshot := capture server a (TokenMessage n),
                          Tokens := Tokens server + n\<rparr>" and "log = []"
    by (auto split: if_splits)
  fix sid
  assume c: "capturing server sid a"
  then have "sid \<in> dom (receivedSnapshot server)"
    by (auto simp: capturing_def hasReceivedSnapshot_def split: option.splits)
  with ok c show "snapshot server sid \<noteq> None" by auto
qed

lemma HandlePacket_token_returns:
  assumes "snapshotsConsistent server"
  shows "HandlePacket rt server a (TokenMessage n) =
           Inr (server\<lparr>snapshot := capture server a (TokenMessage n),
                       Tokens := Tokens server + n\<rparr>, [])"
proof -
  have "\<not> (\<exists>sid \<in> dom (receivedSnapshot server).
           capturing server sid a \<and> snapshot server sid = None)"
    using assms by (auto simp: snapshotsConsistent_def capturing_def)
  then show ?thesis by simp
qed

text \<open>
  Claim C2.  When a token message from peer \<open>a\<close> is handled, it is appended to the
  captured messages of snapshot \<open>sid\<close> if and only if, at that moment, the server has
  started \<open>sid\<close> and has not yet received the marker of \<open>sid\<close> from \<open>a\<close>; otherwise the
  captured messages of \<open>sid\<close> are unchanged.
\<close>

theorem token_capture_rule:
  assumes "HandlePacket rt server a (TokenMessage n) = Inr (server', log)"
  shows "capturedMessages server' sid =
           (if hasReceivedSnapshot server sid \<and> \<not> markerSeen server sid a
            then capturedMessages server sid @ [SnapshotMessage a (Id server) (TokenMessage n)]
            else capturedMessages server sid)"
proof (cases "capturing server sid a")
  case True
  with HandlePacket_token_Inr(3) [OF assms] obtain st where "snapshot server sid = Some st"
    by blast
  with True HandlePacket_token_Inr(1) [OF assms] show ?thesis
    by (simp add: capturedMessages_def capture_def capturing_def)
next
  case False
  with HandlePacket_token_Inr(1) [OF assms] show ?thesis
    by (auto simp: capturedMessages_def capture_def capturing_def)
qed

theorem token_capture_rule_witness:
  "HandlePacket (\<lambda>_. 0) recordingServer ''A'' (TokenMessage 2) =
     Inr (recordingServer\<lparr>snapshot := capture recordingServer ''A'' (TokenMessage 2), Tokens := 10\<rparr>, []) \<and>
   capturedMessages
     (recordingServer\<lparr>snapshot := capture recordingServer ''A'' (TokenMessage 2), Tokens := 10\<rparr>) 1 =
     [SnapshotMessage ''A'' ''B'' (TokenMessage 3), SnapshotMessage ''A'' ''B'' (TokenMessage 2)] \<and>
   HandlePacket (\<lambda>_. 0) recordingServer ''C'' (TokenMessage 2) =
     Inr (recordingServer\<lparr>snapshot := capture recordingServer ''C'' (TokenMessage 2), Tokens := 10\<rparr>, []) \<and>
   capturedMessages
     (recordingServer\<lparr>snapshot := capture recordingServer ''C'' (TokenMessage 2), Tokens := 10\<rparr>) 1 =
     [SnapshotMessage ''A'' ''B'' (TokenMessage 3)]"
proof -
  have c: "snapshotsConsistent recordingServer"
    by (auto simp: snapshotsConsistent_def recordingServer_def hasReceivedSnapshot_def
          markersOf_def split: if_splits)
  have a: "HandlePacket (\<lambda>_. 0) recordingServer ''A'' (TokenMessage 2) =
     Inr (recordingServer\<lparr>snapshot := capture recordingServer ''A'' (TokenMessage 2), Tokens := 10\<rparr>, [])"
    by (simp only: HandlePacket_token_returns [OF c]) (simp add: recordingServer_def)
  have b: "HandlePacket (\<lambda>_. 0) recordingServer ''C'' (TokenMessage 2) =
     Inr (recordingServer\<lparr>snapshot := capture recordingServer ''C'' (TokenMessage 2), Tokens := 10\<rparr>, [])"
    by (simp only: HandlePacket_token_returns [OF c]) (simp add: recordingServer_def)
  have sa: "hasReceivedSnapshot recordingServer 1 \<and> \<not> markerSeen recordingServer 1 ''A''"
    by (simp add: recordingServer_def hasReceivedSnapshot_def markerSeen_def markersOf_def)
  have sc: "markerSeen recordingServer 1 ''C''"
    by (simp add: recordingServer_def hasReceivedSnapshot_def markerSeen_def markersOf_def)
  have m: "capturedMessages recordingServer 1 = [SnapshotMessage ''A'' ''B'' (TokenMessage 3)]"
    "Id recordingServer = ''B''"
    by (simp_all add: recordingServer_def capturedMessages_def)
  from token_capture_rule [OF a, of 1] token_capture_rule [OF b, of 1] a b sa sc m
  show ?thesis by simp
qed

subsection \<open>Starting a snapshot\<close>

lemma hasReceivedSnapshot_started [simp]: "hasReceivedSnapshot (started server sid) sid"
  by (simp add: hasReceivedSnapshot_def started_def)

text \<open>
  Claim C6.  \<open>StartSnapshot\<close> creates an empty marker map for the snapshot id, sets the
  started flag and creates a record that holds the token count of that instant and no
  messages; it leaves \<open>Tokens\<close> alone and appends one marker message tagged with the id to
  the queue of every outbound link.  The markers go out in ascending order of the keys
  of \<open>outboundLinks\<close> (the ids of the peers): the logged sends follow a sorted,
  duplicate-free list of all keys.
\<close>

theorem StartSnapshot_effect:
  assumes "finite (dom (outboundLinks server))"
    and "StartSnapshot rt server sid = (server', log)"
  shows "inReceivedMarker server' sid = Some Map.empty \<and>
         hasReceivedSnapshot server' sid \<and>
         snapshot server' sid =
           Some \<lparr>snap_id = sid, tokens = [Id server \<mapsto> Tokens server], messages = []\<rparr> \<and>
         Tokens server' = Tokens server \<and>
         dom (outboundLinks server') = dom (outboundLinks server) \<and>
         (\<forall>d link. outboundLinks server d = Some link \<longrightarrow>
            outboundLinks server' d =
              Some (link\<lparr>events := events link @
                      [SendMessageEvent (Id server) (dest link) (MarkerMessage sid) (rt d)]\<rparr>)) \<and>
         (\<exists>ks. sorted ks \<and> distinct ks \<and> set ks = dom (outboundLinks server) \<and>
               log = map (sentLog server (MarkerMessage sid)) ks)"
proof -
  from assms StartSnapshot_eq [OF assms(1), of rt sid]
  have s: "server' = (started server sid)\<lparr>outboundLinks :=
         (\<lambda>k. map_option (pushEvent rt (Id server) (MarkerMessage sid) k) (outboundLinks server k))\<rparr>"
    and l: "log = map (sentLog server (MarkerMessage sid)) (getSortedKeys (outboundLinks server))"
    by simp_all
  have "\<exists>ks. sorted ks \<and> distinct ks \<and> set ks = dom (outboundLinks server) \<and>
               log = map (sentLog server (MarkerMessage sid)) ks"
    using l assms(1) getSortedKeys_sorted getSortedKeys_distinct getSortedKeys_set by blast
  moreover have "dom (outboundLinks server') = dom (outboundLinks server)"
    unfolding s by (auto simp: dom_def)
  ultimately show ?thesis
    unfolding s by (simp add: started_def hasReceivedSnapshot_def pushEvent_def)
qed

theorem StartSnapshot_effect_witness:
  "StartSnapshot (\<lambda>_. 9)
     ((NewServer ''A'' 6)\<lparr>outboundLinks :=
        [''C'' \<mapsto> \<lparr>src = ''A'', dest = ''C'', events = []\<rparr>,
         ''B'' \<mapsto> \<lparr>src = ''A'', dest = ''B'', events = []\<rparr>]\<rparr>) 1 =
   ((NewServer ''A'' 6)\<lparr>outboundLinks :=
        [''C'' \<mapsto> \<lparr>src = ''A'', dest = ''C'',
                    events = [SendMessageEvent ''A'' ''C'' (MarkerMessage 1) 9]\<rparr>,
         ''B'' \<mapsto> \<lparr>src = ''A'', dest = ''B'',
                    events = [SendMessageEvent ''A'' ''B'' (MarkerMessage 1) 9]\<rparr>],
      receivedSnapshot := [1 \<mapsto> True], inReceivedMarker := [1 \<mapsto> Map.empty],
      snapshot := [1 \<mapsto> \<lparr>snap_id = 1, tokens = [''A'' \<mapsto> 6], messages = []\<rparr>]\<rparr>,
    [RecordEvent ''A'' (SentMessageEvent ''A'' ''B'' (MarkerMessage 1)),
     RecordEvent ''A'' (SentMessageEvent ''A'' ''C'' (MarkerMessage 1))])"
  (is "StartSnapshot ?rt ?s 1 = (?s', ?log)")
proof -
  have f: "finite (dom (outboundLinks ?s))" by simp
  have k: "getSortedKeys (outboundLinks ?s) = [''B'', ''C'']"
    by (simp add: getSortedKeys_def)
  have r: "StartSnapshot ?rt ?s 1 = (?s', ?log)"
    unfolding StartSnapshot_eq [OF f] k
    by (auto simp: started_def NewServer_def pushEvent_def sentLog_def fun_eq_iff)
  from StartSnapshot_effect [OF f r] r show ?thesis by simp
qed

subsection \<open>The first marker of a snapshot\<close>

lemma StartSnapshot_fields:
  "inReceivedMarker (fst (StartSnapshot rt server sid)) = (inReceivedMarker server)(sid \<mapsto> Map.empty)"
  "receivedSnapshot (fst (StartSnapshot rt server sid)) = (receivedSnapshot server)(sid \<mapsto> True)"
  "snapshot (fst (StartSnapshot rt server sid)) = (snapshot server)(sid \<mapsto>
     \<lparr>snap_id = sid, tokens = [Id server \<mapsto> Tokens server], messages = []\<rparr>)"
  "Tokens (fst (StartSnapshot rt server sid)) = Tokens server"
  "Id (fst (StartSnapshot rt server sid)) = Id server"
  "inboundLinks (fst (StartSnapshot rt server sid)) = inboundLinks server"
proof -
  obtain out where "fst (StartSnapshot rt server sid) = (started server sid)\<lparr>outboundLinks := out\<rparr>"
    using StartSnapshot_frame by blast
  then show
    "inReceivedMarker (fst (StartSnapshot rt server sid)) = (inReceivedMarker server)(sid \<mapsto> Map.empty)"
    "receivedSnapshot (fst (StartSnapshot rt server sid)) = (receivedSnapshot server)(sid \<mapsto> True)"
    "snapshot (fst (StartSnapshot rt server sid)) = (snapshot server)(sid \<mapsto>
       \<lparr>snap_id = sid, tokens = [Id server \<mapsto> Tokens server], messages = []\<rparr>)"
    "Tokens (fst (StartSnapshot rt server sid)) = Tokens server"
    "Id (fst (StartSnapshot rt server sid)) = Id server"
    "inboundLinks (fst (StartSnapshot rt server sid)) = inboundLinks server"
    by (simp_all add: started_def)
qed

text \<open>
  Claim C5.  A marker for a snapshot id the server has not started makes \<open>HandlePacket\<close>
  call \<open>StartSnapshot\<close> for that id: the call returns the server that \<open>StartSnapshot\<close>
  produces, with the sender entered in the new marker map, and the calls of
  \<open>StartSnapshot\<close> (the sends of the markers) come first in its log.  So the started
  flag, the record with the current token count and the outgoing markers all exist
  after the first marker.
\<close>

theorem first_marker_starts_snapshot:
  assumes "\<not> hasReceivedSnapshot server sid"
  shows "\<exists>server'.
           HandlePacket rt server a (MarkerMessage sid) =
             Inr (server', snd (StartSnapshot rt server sid) @ notifyIfComplete server' sid) \<and>
           server' = (fst (StartSnapshot rt server sid))
                       \<lparr>inReceivedMarker := (inReceivedMarker server)(sid \<mapsto> [a \<mapsto> True])\<rparr> \<and>
           hasReceivedSnapshot server' sid \<and>
           snapshot server' sid =
             Some \<lparr>snap_id = sid, tokens = [Id server \<mapsto> Tokens server], messages = []\<rparr> \<and>
           outboundLinks server' = outboundLinks (fst (StartSnapshot rt server sid))"
proof -
  let ?s1 = "fst (StartSnapshot rt server sid)"
  have ns: "\<not> markerSeen ?s1 sid a"
    by (simp add: markerSeen_def markersOf_def StartSnapshot_fields)
  have rm: "recordMarker ?s1 sid a =
              Inr (?s1\<lparr>inReceivedMarker := (inReceivedMarker server)(sid \<mapsto> [a \<mapsto> True])\<rparr>)"
    using ns by (simp add: recordMarker_def StartSnapshot_fields)
  have "HandlePacket rt server a (MarkerMessage sid) =
          Inr (?s1\<lparr>inReceivedMarker := (inReceivedMarker server)(sid \<mapsto> [a \<mapsto> True])\<rparr>,
               snd (StartSnapshot rt server sid) @
               notifyIfComplete (?s1\<lparr>inReceivedMarker := (inReceivedMarker server)(sid \<mapsto> [a \<mapsto> True])\<rparr>) sid)"
    using assms rm by (simp add: case_prod_unfold)
  then show ?thesis
    by (simp add: hasReceivedSnapshot_def StartSnapshot_fields)
qed

theorem first_marker_starts_snapshot_witness:
  "\<not> hasReceivedSnapshot ((NewServer ''B'' 4)\<lparr>inboundLinks := [''A'' \<mapsto> (''A'', ''B'')]\<rparr>) 1 \<and>
   HandlePacket (\<lambda>_. 0) ((NewServer ''B'' 4)\<lparr>inboundLinks := [''A'' \<mapsto> (''A'', ''B'')]\<rparr>)
       ''A'' (MarkerMessage 1) =
     Inr ((NewServer ''B'' 4)\<lparr>inboundLinks := [''A'' \<mapsto> (''A'', ''B'')],
            receivedSnapshot := [1 \<mapsto> True],
            inReceivedMarker := [1 \<mapsto> [''A'' \<mapsto> True]],
            snapshot := [1 \<mapsto> \<lparr>snap_id = 1, tokens = [''B'' \<mapsto> 4], messages = []\<rparr>]\<rparr>,
          [ChanSend 1 (Some \<lparr>snap_id = 1, tokens = [''B'' \<mapsto> 4], messages = []\<rparr>),
           NotifySnapshotComplete ''B'' 1])"
  (is "\<not> hasReceivedSnapshot ?s 1 \<and> _")
proof -
  have n: "\<not> hasReceivedSnapshot ?s 1"
    by (simp add: hasReceivedSnapshot_def NewServer_def)
  have f: "finite (dom (outboundLinks ?s))" by (simp add: NewServer_def)
  have k: "getSortedKeys (outboundLinks ?s) = []"
    by (simp add: getSortedKeys_def NewServer_def)
  have s: "StartSnapshot (\<lambda>_. 0) ?s 1 =
     (?s\<lparr>receivedSnapshot := [1 \<mapsto> True],
            inReceivedMarker := [1 \<mapsto> Map.empty],
            snapshot := [1 \<mapsto> \<lparr>snap_id = 1, tokens = [''B'' \<mapsto> 4], messages = []\<rparr>]\<rparr>, [])"
    unfolding StartSnapshot_eq [OF f] k
    by (simp add: started_def NewServer_def)
  from first_marker_starts_snapshot [OF n, of "\<lambda>_. 0" "''A''"] n show ?thesis
    unfolding s
    by (auto simp: notifyIfComplete_def len_def markersOf_def NewServer_def)
qed

subsection \<open>A repeated start\<close>

text \<open>
  Claim C4, amended.  \<open>StartSnapshot\<close> itself is not idempotent (the source asks for it
  to be called once only), and it never changes \<open>Tokens\<close>.  A repeated start that arrives
  as a marker for an id already started is absorbed: \<open>HandlePacket\<close> does not call
  \<open>StartSnapshot\<close> again, so \<open>Tokens\<close>, the records, the started flags and the outbound
  queues stay as they are, the markers already seen stay seen, and no marker is sent.
\<close>

theorem repeated_start_on_marker_path_absorbed:
  "Tokens (fst (StartSnapshot rt server sid)) = Tokens server \<and>
   (hasReceivedSnapshot server sid \<longrightarrow>
      (\<forall>server' log. HandlePacket rt server a (MarkerMessage sid) = Inr (server', log) \<longrightarrow>
         Tokens server' = Tokens server \<and>
         snapshot server' = snapshot server \<and>
         receivedSnapshot server' = receivedSnapshot server \<and>
         outboundLinks server' = outboundLinks server \<and>
         (\<forall>b. markerSeen server sid b \<longrightarrow> markerSeen server' sid b) \<and>
         (\<forall>x e. RecordEvent x e \<notin> set log)))"
proof (intro conjI impI allI)
  show "Tokens (fst (StartSnapshot rt server sid)) = Tokens server"
    by (rule StartSnapshot_fields)
next
  fix server' log
  assume st: "hasReceivedSnapshot server sid"
    and h: "HandlePacket rt server a (MarkerMessage sid) = Inr (server', log)"
  from h have rm: "recordMarker server sid a = Inr server'"
    and l: "log = notifyIfComplete server' sid"
    unfolding HandlePacket_marker_started [OF st] by (auto split: sum.splits)
  from rm obtain irm where s': "server' = server\<lparr>inReceivedMarker := irm\<rparr>"
    using recordMarker_frame by blast
  show "Tokens server' = Tokens server" "snapshot server' = snapshot server"
    "receivedSnapshot server' = receivedSnapshot server"
    "outboundLinks server' = outboundLinks server"
    by (simp_all add: s')
  show "\<And>b. markerSeen server sid b \<Longrightarrow> markerSeen server' sid b"
    using rm by (rule recordMarker_markerSeen)
  show "\<And>x e. RecordEvent x e \<notin> set log"
    unfolding l by (rule notifyIfComplete_no_RecordEvent)
qed

theorem repeated_start_on_marker_path_absorbed_witness:
  "hasReceivedSnapshot recordingServer 1 \<and>
   HandlePacket (\<lambda>_. 0) recordingServer ''A'' (MarkerMessage 1) =
     Inr (recordingServer\<lparr>inReceivedMarker := [1 \<mapsto> [''C'' \<mapsto> True, ''A'' \<mapsto> True]]\<rparr>,
          [ChanSend 1 (snapshot recordingServer 1), NotifySnapshotComplete ''B'' 1]) \<and>
   markerSeen (recordingServer\<lparr>inReceivedMarker := [1 \<mapsto> [''C'' \<mapsto> True, ''A'' \<mapsto> True]]\<rparr>) 1 ''C''"
proof -
  have st: "hasReceivedSnapshot recordingServer 1"
    by (simp add: recordingServer_def hasReceivedSnapshot_def)
  have h: "HandlePacket (\<lambda>_. 0) recordingServer ''A'' (MarkerMessage 1) =
     Inr (recordingServer\<lparr>inReceivedMarker := [1 \<mapsto> [''C'' \<mapsto> True, ''A'' \<mapsto> True]]\<rparr>,
          [ChanSend 1 (snapshot recordingServer 1), NotifySnapshotComplete ''B'' 1])"
    by (simp add: recordingServer_def hasReceivedSnapshot_def recordMarker_def markerSeen_def
          markersOf_def notifyIfComplete_def len_def)
  have c: "markerSeen recordingServer 1 ''C''"
    by (simp add: recordingServer_def markerSeen_def markersOf_def)
  from repeated_start_on_marker_path_absorbed [of "\<lambda>_. 0" recordingServer 1 "''A''"] st h c
  show ?thesis by blast
qed

text \<open>
  Claim C4 as stated fails: a second direct call of \<open>StartSnapshot\<close> for snapshot 1 on
  \<open>recordingServer\<close> replaces the record (the captured message is gone, the recorded
  count is now 8, not 5) and empties the marker map.
\<close>

theorem repeated_StartSnapshot_counterexample:
  "hasReceivedSnapshot recordingServer 1 \<and>
   capturedMessages recordingServer 1 = [SnapshotMessage ''A'' ''B'' (TokenMessage 3)] \<and>
   capturedMessages (fst (StartSnapshot (\<lambda>_. 0) recordingServer 1)) 1 = [] \<and>
   markerSeen recordingServer 1 ''C'' \<and>
   \<not> markerSeen (fst (StartSnapshot (\<lambda>_. 0) recordingServer 1)) 1 ''C'' \<and>
   snapshot recordingServer 1 =
     Some \<lparr>snap_id = 1, tokens = [''B'' \<mapsto> 5],
           messages = [SnapshotMessage ''A'' ''B'' (TokenMessage 3)]\<rparr> \<and>
   snapshot (fst (StartSnapshot (\<lambda>_. 0) recordingServer 1)) 1 =
     Some \<lparr>snap_id = 1, tokens = [''B'' \<mapsto> 8], messages = []\<rparr> \<and>
   fst (StartSnapshot (\<lambda>_. 0) recordingServer 1) \<noteq> recordingServer"
proof -
  have a: "snapshot (fst (StartSnapshot (\<lambda>_. 0) recordingServer 1)) 1 =
     Some \<lparr>snap_id = 1, tokens = [''B'' \<mapsto> 8], messages = []\<rparr>"
    by (simp add: StartSnapshot_fields) (simp add: recordingServer_def)
  have b: "snapshot recordingServer 1 =
     Some \<lparr>snap_id = 1, tokens = [''B'' \<mapsto> 5],
           messages = [SnapshotMessage ''A'' ''B'' (TokenMessage 3)]\<rparr>"
    by (simp add: recordingServer_def)
  have ne: "fst (StartSnapshot (\<lambda>_. 0) recordingServer 1) \<noteq> recordingServer"
  proof
    assume "fst (StartSnapshot (\<lambda>_. 0) recordingServer 1) = recordingServer"
    then have "snapshot (fst (StartSnapshot (\<lambda>_. 0) recordingServer 1)) 1 = snapshot recordingServer 1"
      by simp
    then show False unfolding a b by simp
  qed
  have c: "markerSeen recordingServer 1 ''C''"
    by (simp add: recordingServer_def markerSeen_def markersOf_def)
  have d: "\<not> markerSeen (fst (StartSnapshot (\<lambda>_. 0) recordingServer 1)) 1 ''C''"
    by (simp add: markerSeen_def markersOf_def StartSnapshot_fields)
  have st: "hasReceivedSnapshot recordingServer 1"
    by (simp add: recordingServer_def hasReceivedSnapshot_def)
  show ?thesis
    using a b ne c d st by (simp add: capturedMessages_def)
qed

subsection \<open>Adding links\<close>

text \<open>
  Claim C8.  Adding a link from a server to itself changes nothing, and adding the same
  directed link a second time leaves the store of servers as the first addition made it.
\<close>

theorem AddOutboundLink_idempotent:
  "AddOutboundLink a a heap = Some heap \<and>
   (\<forall>heap1. AddOutboundLink a b heap = Some heap1 \<longrightarrow> AddOutboundLink a b heap1 = Some heap1)"
proof (intro conjI allI impI)
  show "AddOutboundLink a a heap = Some heap" by (simp add: AddOutboundLink_def)
next
  fix heap1
  assume h: "AddOutboundLink a b heap = Some heap1"
  show "AddOutboundLink a b heap1 = Some heap1"
  proof (cases "a = b")
    case True
    then show ?thesis by (simp add: AddOutboundLink_def)
  next
    case False
    with h obtain server d where sa: "heap a = Some server" and sb: "heap b = Some d"
      and h1: "heap1 = heap(a \<mapsto> server\<lparr>outboundLinks := (outboundLinks server)(Id d \<mapsto>
                    \<lparr>src = Id server, dest = Id d, events = []\<rparr>)\<rparr>,
                  b \<mapsto> d\<lparr>inboundLinks := (inboundLinks d)(Id server \<mapsto> (a, Id d))\<rparr>)"
      by (auto simp: AddOutboundLink_def Let_def split: option.splits)
    show ?thesis
      unfolding h1 using False
      by (auto simp: AddOutboundLink_def Let_def fun_eq_iff)
  qed
qed

theorem AddOutboundLink_idempotent_witness:
  "AddOutboundLink ''A'' ''A'' [''A'' \<mapsto> NewServer ''A'' 1, ''B'' \<mapsto> NewServer ''B'' 2] =
     Some [''A'' \<mapsto> NewServer ''A'' 1, ''B'' \<mapsto> NewServer ''B'' 2] \<and>
   AddOutboundLink ''A'' ''B'' [''A'' \<mapsto> NewServer ''A'' 1, ''B'' \<mapsto> NewServer ''B'' 2] =
     Some [''A'' \<mapsto> (NewServer ''A'' 1)\<lparr>outboundLinks :=
                     [''B'' \<mapsto> \<lparr>src = ''A'', dest = ''B'', events = []\<rparr>]\<rparr>,
           ''B'' \<mapsto> (NewServer ''B'' 2)\<lparr>inboundLinks := [''A'' \<mapsto> (''A'', ''B'')]\<rparr>] \<and>
   AddOutboundLink ''A'' ''B''
     [''A'' \<mapsto> (NewServer ''A'' 1)\<lparr>outboundLinks :=
                     [''B'' \<mapsto> \<lparr>src = ''A'', dest = ''B'', events = []\<rparr>]\<rparr>,
      ''B'' \<mapsto> (NewServer ''B'' 2)\<lparr>inboundLinks := [''A'' \<mapsto> (''A'', ''B'')]\<rparr>] =
     Some [''A'' \<mapsto> (NewServer ''A'' 1)\<lparr>outboundLinks :=
                     [''B'' \<mapsto> \<lparr>src = ''A'', dest = ''B'', events = []\<rparr>]\<rparr>,
           ''B'' \<mapsto> (NewServer ''B'' 2)\<lparr>inboundLinks := [''A'' \<mapsto> (''A'', ''B'')]\<rparr>]"
proof -
  have e: "AddOutboundLink ''A'' ''B'' [''A'' \<mapsto> NewServer ''A'' 1, ''B'' \<mapsto> NewServer ''B'' 2] =
     Some [''A'' \<mapsto> (NewServer ''A'' 1)\<lparr>outboundLinks :=
                     [''B'' \<mapsto> \<lparr>src = ''A'', dest = ''B'', events = []\<rparr>]\<rparr>,
           ''B'' \<mapsto> (NewServer ''B'' 2)\<lparr>inboundLinks := [''A'' \<mapsto> (''A'', ''B'')]\<rparr>]"
    by (simp add: AddOutboundLink_def NewServer_def)
  from AddOutboundLink_idempotent
         [of "''A''" "[''A'' \<mapsto> NewServer ''A'' 1, ''B'' \<mapsto> NewServer ''B'' 2]" "''B''"] e
  show ?thesis by simp
qed

subsection \<open>Queues\<close>

lemma markerCount_simps [simp]:
  "markerCount sid [] = 0"
  "markerCount sid (e # es) = (if ev_message e = MarkerMessage sid then 1 else 0) + markerCount sid es"
  "markerCount sid (es @ fs) = markerCount sid es + markerCount sid fs"
  by (simp_all add: markerCount_def)

lemma inFlight_simps [simp]:
  "inFlight [] = 0"
  "inFlight (e # es) = payload (ev_message e) + inFlight es"
  "inFlight (es @ fs) = inFlight es + inFlight fs"
  by (simp_all add: inFlight_def)

lemma beforeMarker_simps [simp]:
  "beforeMarker sid [] = []"
  "beforeMarker sid (e # es) = (if ev_message e = MarkerMessage sid then [] else e # beforeMarker sid es)"
  by (simp_all add: beforeMarker_def)

lemma beforeMarker_append:
  "beforeMarker sid (es @ fs) =
     (if markerCount sid es = 0 then es @ beforeMarker sid fs else beforeMarker sid es)"
  by (induction es) auto

lemma beforeMarker_none: "markerCount sid es = 0 \<Longrightarrow> beforeMarker sid es = es"
  by (induction es) (auto split: if_splits)

lemma inFlight_before_push_marker:
  "ev_message e = MarkerMessage sid' \<Longrightarrow>
   inFlight (beforeMarker sid (es @ [e])) = inFlight (beforeMarker sid es)"
  by (simp add: beforeMarker_append beforeMarker_none)

lemma inFlight_before_push_token:
  "ev_message e = TokenMessage n \<Longrightarrow>
   inFlight (beforeMarker sid (es @ [e])) =
     inFlight (beforeMarker sid es) + (if markerCount sid es = 0 then n else 0)"
  by (simp add: beforeMarker_append beforeMarker_none)

subsection \<open>What the operations do to one server, seen through its queues and snapshot state\<close>

lemma hasReceivedSnapshot_iff:
  "hasReceivedSnapshot server sid \<longleftrightarrow> receivedSnapshot server sid = Some True"
  by (auto simp: hasReceivedSnapshot_def split: option.splits)

lemma StartSnapshot_outboundLinks:
  assumes "finite (dom (outboundLinks server))"
  shows "outboundLinks (fst (StartSnapshot rt server sid)) =
     (\<lambda>k. map_option (pushEvent rt (Id server) (MarkerMessage sid) k) (outboundLinks server k))"
  by (simp add: StartSnapshot_eq [OF assms])

lemma StartSnapshot_queueOf:
  assumes "finite (dom (outboundLinks server))"
  shows "queueOf (fst (StartSnapshot rt server sid)) d = queueOf server d @ markerEvent rt server sid d"
  by (simp add: queueOf_def markerEvent_def StartSnapshot_outboundLinks [OF assms] pushEvent_def
        split: option.splits)

lemma markerEvent_message:
  "e \<in> set (markerEvent rt server sid d) \<Longrightarrow> ev_message e = MarkerMessage sid"
  by (auto simp: markerEvent_def split: option.splits)

lemma markerEvent_cases:
  "(d \<notin> dom (outboundLinks server) \<and> markerEvent rt server sid d = []) \<or>
   (d \<in> dom (outboundLinks server) \<and> (\<exists>e. markerEvent rt server sid d = [e] \<and> ev_message e = MarkerMessage sid))"
  by (auto simp: markerEvent_def split: option.splits)

lemma StartSnapshot_dom_outboundLinks:
  "dom (outboundLinks (fst (StartSnapshot rt server sid))) = dom (outboundLinks server)"
proof -
  have "\<And>ks server log. distinct ks \<Longrightarrow>
      dom (outboundLinks (fst (fold (sendOne rt (MarkerMessage sid)) ks (server, log)))) = dom (outboundLinks server)"
    by (auto simp: fold_sendOne dom_def split: if_splits)
  then show ?thesis
    by (simp add: StartSnapshot_def SendToNeighbors_def getSortedKeys_distinct)
qed

lemma StartSnapshot_hasReceivedSnapshot:
  "hasReceivedSnapshot (fst (StartSnapshot rt server sid)) sid' \<longleftrightarrow>
     sid' = sid \<or> hasReceivedSnapshot server sid'"
  by (simp add: hasReceivedSnapshot_def StartSnapshot_fields)

lemma StartSnapshot_markersOf:
  "markersOf (fst (StartSnapshot rt server sid)) sid' =
     (if sid' = sid then Map.empty else markersOf server sid')"
  by (simp add: markersOf_def StartSnapshot_fields)

lemma StartSnapshot_val:
  assumes "\<not> hasReceivedSnapshot server sid"
  shows "val (fst (StartSnapshot rt server sid)) sid' = val server sid'"
  using assms
  by (auto simp: val_def StartSnapshot_hasReceivedSnapshot recorded_def StartSnapshot_fields
           split: option.splits)

lemma StartSnapshot_log_no_notification:
  "NotifySnapshotComplete p sid' \<notin> set (snd (StartSnapshot rt server sid))"
proof -
  have "\<And>ks server log. distinct ks \<Longrightarrow> NotifySnapshotComplete p sid' \<notin> set log \<Longrightarrow>
      NotifySnapshotComplete p sid' \<notin> set (snd (fold (sendOne rt (MarkerMessage sid)) ks (server, log)))"
    by (auto simp: fold_sendOne sentLog_def split: option.splits)
  then show ?thesis
    by (simp add: StartSnapshot_def SendToNeighbors_def getSortedKeys_distinct)
qed

lemma StartSnapshot_snapshotsConsistent:
  assumes "snapshotsConsistent server"
  shows "snapshotsConsistent (fst (StartSnapshot rt server sid))"
  using assms unfolding snapshotsConsistent_def
  by (auto simp: StartSnapshot_hasReceivedSnapshot StartSnapshot_markersOf StartSnapshot_fields
           split: if_splits)

subsection \<open>Sending tokens\<close>

lemma SendTokens_Inr:
  assumes "SendTokens rt server n d = Inr (server', log)"
  shows "\<exists>link. outboundLinks server d = Some link \<and>
           server' = server\<lparr>Tokens := Tokens server - n,
                       outboundLinks := (outboundLinks server)(d \<mapsto>
                         link\<lparr>events := events link @
                           [SendMessageEvent (Id server) d (TokenMessage n) rt]\<rparr>)\<rparr> \<and>
           log = [RecordEvent (Id server) (SentMessageEvent (Id server) d (TokenMessage n))]"
  using assms by (auto simp: SendTokens_def Let_def split: if_splits option.splits)

lemma SendTokens_view:
  assumes "SendTokens rt server n d = Inr (server', log)"
  shows "d \<in> dom (outboundLinks server)"
    and "queueOf server' b =
           queueOf server b @
             (if b = d then [SendMessageEvent (Id server) d (TokenMessage n) rt] else [])"
    and "hasReceivedSnapshot server' sid = hasReceivedSnapshot server sid"
    and "markersOf server' sid = markersOf server sid"
    and "val server' sid = val server sid - (if hasReceivedSnapshot server sid then 0 else n)"
    and "Id server' = Id server"
    and "inboundLinks server' = inboundLinks server"
    and "dom (outboundLinks server') = dom (outboundLinks server)"
    and "snapshotsConsistent server' = snapshotsConsistent server"
    and "NotifySnapshotComplete p sid \<notin> set log"
proof -
  from SendTokens_Inr [OF assms] obtain link where
    l: "outboundLinks server d = Some link" and
    s: "server' = server\<lparr>Tokens := Tokens server - n,
                       outboundLinks := (outboundLinks server)(d \<mapsto>
                         link\<lparr>events := events link @
                           [SendMessageEvent (Id server) d (TokenMessage n) rt]\<rparr>)\<rparr>" and
    g: "log = [RecordEvent (Id server) (SentMessageEvent (Id server) d (TokenMessage n))]"
    by blast
  show "d \<in> dom (outboundLinks server)" using l by auto
  show "queueOf server' b =
           queueOf server b @
             (if b = d then [SendMessageEvent (Id server) d (TokenMessage n) rt] else [])"
    using l by (simp add: s queueOf_def)
  show "hasReceivedSnapshot server' sid = hasReceivedSnapshot server sid"
    by (simp add: s hasReceivedSnapshot_def)
  show "markersOf server' sid = markersOf server sid"
    by (simp add: s markersOf_def)
  show "val server' sid = val server sid - (if hasReceivedSnapshot server sid then 0 else n)"
    by (simp add: s val_def hasReceivedSnapshot_def recorded_def cong: option.case_cong)
  show "Id server' = Id server" "inboundLinks server' = inboundLinks server"
    by (simp_all add: s)
  show "dom (outboundLinks server') = dom (outboundLinks server)"
    using l by (auto simp: s)
  show "snapshotsConsistent server' = snapshotsConsistent server"
    by (simp add: s snapshotsConsistent_def hasReceivedSnapshot_def markersOf_def)
  show "NotifySnapshotComplete p sid \<notin> set log" by (simp add: g)
qed

subsection \<open>Receiving tokens\<close>

lemma HandlePacket_token_view:
  assumes "HandlePacket rt server a (TokenMessage n) = Inr (server', log)"
  shows "queueOf server' b = queueOf server b"
    and "hasReceivedSnapshot server' sid = hasReceivedSnapshot server sid"
    and "markersOf server' sid = markersOf server sid"
    and "val server' sid =
           val server sid + (if hasReceivedSnapshot server sid \<and> markerSeen server sid a then 0 else n)"
    and "Id server' = Id server"
    and "inboundLinks server' = inboundLinks server"
    and "outboundLinks server' = outboundLinks server"
    and "snapshotsConsistent server \<Longrightarrow> snapshotsConsistent server'"
    and "log = []"
proof -
  note s = HandlePacket_token_Inr(1) [OF assms]
  show "queueOf server' b = queueOf server b" by (simp add: s queueOf_def)
  show "hasReceivedSnapshot server' sid = hasReceivedSnapshot server sid"
    by (simp add: s hasReceivedSnapshot_def)
  show "markersOf server' sid = markersOf server sid" by (simp add: s markersOf_def)
  show "Id server' = Id server" "inboundLinks server' = inboundLinks server"
    "outboundLinks server' = outboundLinks server"
    by (simp_all add: s)
  show "log = []" by (rule HandlePacket_token_Inr(2) [OF assms])
  show "val server' sid =
           val server sid + (if hasReceivedSnapshot server sid \<and> markerSeen server sid a then 0 else n)"
  proof (cases "capturing server sid a")
    case True
    with HandlePacket_token_Inr(3) [OF assms] obtain st where "snapshot server sid = Some st"
      by blast
    with True show ?thesis
      by (simp add: s val_def recorded_def capture_def capturing_def hasReceivedSnapshot_def
            cong: option.case_cong)
  next
    case False
    then show ?thesis
      by (auto simp: s val_def recorded_def capture_def capturing_def hasReceivedSnapshot_def
            cong: option.case_cong)
  qed
  show "snapshotsConsistent server'" if "snapshotsConsistent server"
    using that unfolding snapshotsConsistent_def
    by (auto simp: s hasReceivedSnapshot_def markersOf_def capture_def)
qed

subsection \<open>Receiving a marker\<close>

lemma recordMarker_consistent:
  assumes "snapshotsConsistent server" and "hasReceivedSnapshot server sid"
  shows "recordMarker server sid a = Inr (afterMarker server sid a)"
proof -
  from assms obtain m where m: "inReceivedMarker server sid = Some m"
    by (auto simp: snapshotsConsistent_def)
  show ?thesis
  proof (cases "markerSeen server sid a")
    case True
    then have "m a = Some True" using m by (simp add: markerSeen_iff)
    then have "m(a \<mapsto> True) = m" by (auto simp: fun_eq_iff)
    then have "afterMarker server sid a = server"
      using m by (simp add: afterMarker_def markersOf_def fun_upd_idem)
    with True show ?thesis by (simp add: recordMarker_def)
  next
    case False
    then show ?thesis using m by (simp add: recordMarker_def afterMarker_def markersOf_def)
  qed
qed

lemma begun_queueOf:
  assumes "finite (dom (outboundLinks server))"
  shows "queueOf (fst (begun rt server sid)) d =
           queueOf server d @ (if hasReceivedSnapshot server sid then [] else markerEvent rt server sid d)"
  using assms by (simp add: begun_def StartSnapshot_queueOf)

lemma begun_view:
  shows "hasReceivedSnapshot (fst (begun rt server sid)) sid' \<longleftrightarrow>
           sid' = sid \<or> hasReceivedSnapshot server sid'"
    and "snapshotsConsistent server \<Longrightarrow> markersOf (fst (begun rt server sid)) sid' = markersOf server sid'"
    and "val (fst (begun rt server sid)) sid' = val server sid'"
    and "Id (fst (begun rt server sid)) = Id server"
    and "inboundLinks (fst (begun rt server sid)) = inboundLinks server"
    and "dom (outboundLinks (fst (begun rt server sid))) = dom (outboundLinks server)"
    and "snapshotsConsistent server \<Longrightarrow> snapshotsConsistent (fst (begun rt server sid))"
    and "NotifySnapshotComplete p sid' \<notin> set (snd (begun rt server sid))"
proof -
  show "hasReceivedSnapshot (fst (begun rt server sid)) sid' \<longleftrightarrow>
           sid' = sid \<or> hasReceivedSnapshot server sid'"
    by (auto simp: begun_def StartSnapshot_hasReceivedSnapshot)
  show "markersOf (fst (begun rt server sid)) sid' = markersOf server sid'"
    if "snapshotsConsistent server"
  proof (cases "hasReceivedSnapshot server sid")
    case True
    then show ?thesis by (simp add: begun_def)
  next
    case False
    with that have "inReceivedMarker server sid = None"
      by (simp add: snapshotsConsistent_def)
    then have "markersOf server sid = Map.empty" by (simp add: markersOf_def)
    with False show ?thesis by (simp add: begun_def StartSnapshot_markersOf)
  qed
  show "val (fst (begun rt server sid)) sid' = val server sid'"
    by (simp add: begun_def StartSnapshot_val)
  show "Id (fst (begun rt server sid)) = Id server"
    "inboundLinks (fst (begun rt server sid)) = inboundLinks server"
    by (simp_all add: begun_def StartSnapshot_fields)
  show "dom (outboundLinks (fst (begun rt server sid))) = dom (outboundLinks server)"
    by (simp add: begun_def StartSnapshot_dom_outboundLinks)
  show "snapshotsConsistent (fst (begun rt server sid))" if "snapshotsConsistent server"
    using that by (simp add: begun_def StartSnapshot_snapshotsConsistent)
  show "NotifySnapshotComplete p sid' \<notin> set (snd (begun rt server sid))"
    by (simp add: begun_def StartSnapshot_log_no_notification)
qed

lemma afterMarker_view:
  shows "queueOf (afterMarker server sid a) d = queueOf server d"
    and "hasReceivedSnapshot (afterMarker server sid a) sid' = hasReceivedSnapshot server sid'"
    and "markersOf (afterMarker server sid a) sid' =
           (if sid' = sid then (markersOf server sid)(a \<mapsto> True) else markersOf server sid')"
    and "val (afterMarker server sid a) sid' = val server sid'"
    and "Id (afterMarker server sid a) = Id server"
    and "inboundLinks (afterMarker server sid a) = inboundLinks server"
    and "outboundLinks (afterMarker server sid a) = outboundLinks server"
    and "snapshot (afterMarker server sid a) = snapshot server"
  by (simp_all add: afterMarker_def queueOf_def hasReceivedSnapshot_def markersOf_def val_def
        recorded_def cong: option.case_cong)

lemma afterMarker_snapshotsConsistent:
  assumes "snapshotsConsistent server" and "hasReceivedSnapshot server sid"
  shows "snapshotsConsistent (afterMarker server sid a)"
  using assms unfolding snapshotsConsistent_def
  by (auto simp: afterMarker_view) (auto simp: afterMarker_def split: if_splits)

lemma HandlePacket_marker_eq:
  assumes "snapshotsConsistent server" and "finite (dom (outboundLinks server))"
  shows "HandlePacket rt server a (MarkerMessage sid) =
     Inr (afterMarker (fst (begun rt server sid)) sid a,
          snd (begun rt server sid) @
          notifyIfComplete (afterMarker (fst (begun rt server sid)) sid a) sid)"
proof -
  have "recordMarker (fst (begun rt server sid)) sid a =
          Inr (afterMarker (fst (begun rt server sid)) sid a)"
    using assms by (intro recordMarker_consistent) (simp_all add: begun_view)
  then show ?thesis
    by (simp add: begun_def case_prod_unfold)
qed

subsection \<open>Replacing one server of the store\<close>

lemma queue_upd [simp]:
  "queue (heap(p \<mapsto> server)) a b = (if a = p then queueOf server b else queue heap a b)"
  by (simp add: queue_def)

lemma startedAt_upd [simp]:
  "startedAt (heap(p \<mapsto> server)) sid q =
     (if q = p then hasReceivedSnapshot server sid else startedAt heap sid q)"
  by (simp add: startedAt_def)

lemma markersAt_upd [simp]:
  "markersAt (heap(p \<mapsto> server)) sid q =
     (if q = p then markersOf server sid else markersAt heap sid q)"
  by (simp add: markersAt_def)

lemma valAt_upd [simp]:
  "valAt (heap(p \<mapsto> server)) sid q = (if q = p then val server sid else valAt heap sid q)"
  by (simp add: valAt_def)

lemma views_Some:
  assumes "heap p = Some server"
  shows "queue heap p b = queueOf server b"
    and "startedAt heap sid p = hasReceivedSnapshot server sid"
    and "markersAt heap sid p = markersOf server sid"
    and "valAt heap sid p = val server sid"
  using assms by (simp_all add: queue_def startedAt_def markersAt_def valAt_def)

lemma channels_upd:
  assumes "heap p = Some server" and "dom (outboundLinks server') = dom (outboundLinks server)"
  shows "channels (heap(p \<mapsto> server')) = channels heap"
proof (rule set_eqI, clarify)
  fix a b
  show "(a, b) \<in> channels (heap(p \<mapsto> server')) \<longleftrightarrow> (a, b) \<in> channels heap"
  proof (cases "a = p")
    case True
    then show ?thesis using assms by (simp add: channels_def)
  next
    case False
    then show ?thesis by (simp add: channels_def)
  qed
qed

lemma dom_upd_Some: "heap p = Some server \<Longrightarrow> dom (heap(p \<mapsto> server')) = dom heap"
  by auto

lemma topologyOk_upd:
  assumes "topologyOk heap" and "heap p = Some server" and "sameShape server server'"
  shows "topologyOk (heap(p \<mapsto> server'))"
  unfolding topologyOk_def
proof (intro conjI allI impI)
  show "finite (dom (heap(p \<mapsto> server')))"
    using assms by (simp add: topologyOk_def dom_upd_Some)
next
  fix q s
  assume q: "(heap(p \<mapsto> server')) q = Some s"
  define s0 where "s0 = (if q = p then server else s)"
  have s0: "heap q = Some s0" and sh: "sameShape s0 s"
    using q assms(2,3) by (auto simp: s0_def sameShape_def split: if_splits)
  from assms(1) s0 have t: "Id s0 = q" "finite (dom (outboundLinks s0))"
    "finite (dom (inboundLinks s0))" "q \<notin> dom (outboundLinks s0)"
    "\<forall>d \<in> dom (outboundLinks s0). \<exists>sd. heap d = Some sd \<and> q \<in> dom (inboundLinks sd)"
    unfolding topologyOk_def by blast+
  show "Id s = q" "finite (dom (outboundLinks s))" "finite (dom (inboundLinks s))"
    "q \<notin> dom (outboundLinks s)"
    using t sh by (simp_all add: sameShape_def)
  show "\<forall>d \<in> dom (outboundLinks s). \<exists>sd. (heap(p \<mapsto> server')) d = Some sd \<and> q \<in> dom (inboundLinks sd)"
  proof
    fix d assume "d \<in> dom (outboundLinks s)"
    then have "d \<in> dom (outboundLinks s0)" using sh by (simp add: sameShape_def)
    with t(5) obtain sd where sd: "heap d = Some sd" "q \<in> dom (inboundLinks sd)" by blast
    show "\<exists>sd. (heap(p \<mapsto> server')) d = Some sd \<and> q \<in> dom (inboundLinks sd)"
    proof (cases "d = p")
      case True
      with sd assms(2,3) show ?thesis by (auto simp: sameShape_def)
    next
      case False
      with sd show ?thesis by simp
    qed
  qed
qed

lemma topologyOk_facts:
  assumes "topologyOk heap" and "heap p = Some server"
  shows "Id server = p" and "finite (dom (outboundLinks server))"
    and "finite (dom (inboundLinks server))" and "p \<notin> dom (outboundLinks server)"
    and "finite (dom heap)"
  using assms unfolding topologyOk_def by blast+

lemma topologyOk_link:
  assumes "topologyOk heap" and "heap a = Some sa" and "b \<in> dom (outboundLinks sa)"
  shows "a \<noteq> b" and "\<exists>sb. heap b = Some sb \<and> a \<in> dom (inboundLinks sb)"
  using assms unfolding topologyOk_def by blast+

lemma finite_channels:
  assumes "topologyOk heap"
  shows "finite (channels heap)"
proof -
  have "channels heap \<subseteq> (SIGMA a:dom heap. dom (outboundLinks (the (heap a))))"
    by (auto simp: channels_def)
  moreover have "finite (SIGMA a:dom heap. dom (outboundLinks (the (heap a))))"
    using assms by (intro finite_SigmaI) (auto simp: topologyOk_def)
  ultimately show ?thesis by (rule finite_subset)
qed

subsection \<open>The steps of the scheduler\<close>

lemma popped_view:
  shows "queueOf (popped server b) d = (if d = b then tl (queueOf server b) else queueOf server d)"
    and "hasReceivedSnapshot (popped server b) sid = hasReceivedSnapshot server sid"
    and "markersOf (popped server b) sid = markersOf server sid"
    and "val (popped server b) sid = val server sid"
    and "sameShape server (popped server b)"
    and "snapshotsConsistent (popped server b) = snapshotsConsistent server"
    and "inboundLinks (popped server b) = inboundLinks server"
  by (auto simp: popped_def queueOf_def hasReceivedSnapshot_def markersOf_def val_def recorded_def
        sameShape_def snapshotsConsistent_def split: option.splits cong: option.case_cong)

lemma step_PassTokens_Inr:
  assumes "step w (PassTokens p n d rt) = Inr w'"
  obtains server server' log where "servers w p = Some server"
    and "SendTokens rt server n d = Inr (server', log)"
    and "servers w' = (servers w)(p \<mapsto> server')" and "calls w' = calls w @ log"
  using assms by (auto split: option.splits sum.splits)

lemma step_Snapshot_Inr:
  assumes "step w (Snapshot p sid rt) = Inr w'"
  obtains server where "servers w p = Some server" and "\<not> hasReceivedSnapshot server sid"
    and "servers w' = (servers w)(p \<mapsto> fst (begun rt server sid))"
    and "calls w' = calls w @ snd (begun rt server sid)"
  using assms by (auto simp: begun_def split: option.splits if_splits prod.splits)

lemma step_Deliver_Inr:
  assumes "step w (Deliver a b rt) = Inr w'" and "topologyOk (servers w)"
  obtains sa e es sb sb' log where "servers w a = Some sa" and "b \<in> dom (outboundLinks sa)"
    and "queueOf sa b = e # es" and "a \<noteq> b" and "servers w b = Some sb"
    and "HandlePacket rt sb a (ev_message e) = Inr (sb', log)"
    and "servers w' = (servers w)(a \<mapsto> popped sa b, b \<mapsto> sb')"
    and "calls w' = calls w @ log"
proof -
  from assms(1) obtain sa link e es where sa: "servers w a = Some sa"
    and l: "outboundLinks sa b = Some link" and q: "events link = e # es"
    by (auto split: option.splits list.splits)
  have pop: "sa\<lparr>outboundLinks := (outboundLinks sa)(b \<mapsto> link\<lparr>events := es\<rparr>)\<rparr> = popped sa b"
    using l q by (simp add: popped_def)
  from l have bd: "b \<in> dom (outboundLinks sa)" by auto
  from topologyOk_link [OF assms(2) sa bd] obtain sb where ab: "a \<noteq> b"
    and sb: "servers w b = Some sb" by blast
  from assms(1) sa l q ab sb obtain sb' log where
    "HandlePacket rt sb a (ev_message e) = Inr (sb', log)"
    "servers w' = (servers w)(a \<mapsto> popped sa b, b \<mapsto> sb')"
    "calls w' = calls w @ log"
    by (auto simp: pop Let_def split: sum.splits)
  moreover have "queueOf sa b = e # es" using l q by (simp add: queueOf_def)
  ultimately show ?thesis using that sa bd ab sb by blast
qed

text \<open>What handling a message does to a server, whatever the message.\<close>

lemma HandlePacket_shape:
  assumes "HandlePacket rt server a msg = Inr (server', log)"
    and "snapshotsConsistent server" and "finite (dom (outboundLinks server))"
  shows "sameShape server server'" and "snapshotsConsistent server'"
proof -
  show "sameShape server server'"
  proof (cases msg)
    case (MarkerMessage sid)
    with assms have "server' = afterMarker (fst (begun rt server sid)) sid a"
      by (simp add: HandlePacket_marker_eq del: HandlePacket.simps)
    then show ?thesis
      by (simp add: sameShape_def afterMarker_view begun_view)
  next
    case (TokenMessage n)
    with assms(1) show ?thesis
      by (simp add: sameShape_def HandlePacket_token_view del: HandlePacket.simps)
  next
    case OtherMessage
    with assms(1) show ?thesis by (auto simp: sameShape_def)
  qed
  show "snapshotsConsistent server'"
  proof (cases msg)
    case (MarkerMessage sid)
    have "snapshotsConsistent (afterMarker (fst (begun rt server sid)) sid a)"
      using assms(2,3) by (intro afterMarker_snapshotsConsistent) (simp_all add: begun_view)
    with assms MarkerMessage show ?thesis
      by (simp add: HandlePacket_marker_eq del: HandlePacket.simps)
  next
    case (TokenMessage n)
    with assms(1,2) show ?thesis
      using HandlePacket_token_view(8) by blast
  next
    case OtherMessage
    with assms(1,2) show ?thesis by auto
  qed
qed

lemma HandlePacket_markers_subset:
  assumes "HandlePacket rt server a msg = Inr (server', log)"
    and "snapshotsConsistent server" and "finite (dom (outboundLinks server))"
    and "a \<in> dom (inboundLinks server)"
    and "dom (markersOf server sid) \<subseteq> dom (inboundLinks server)"
  shows "dom (markersOf server' sid) \<subseteq> dom (inboundLinks server')"
proof (cases msg)
  case (MarkerMessage sid0)
  with assms have s': "server' = afterMarker (fst (begun rt server sid0)) sid0 a"
    by (simp add: HandlePacket_marker_eq del: HandlePacket.simps)
  have 1: "dom (markersOf server' sid) \<subseteq> insert a (dom (markersOf server sid))"
    using assms(2) by (auto simp: s' afterMarker_view begun_view split: if_splits)
  have 2: "insert a (dom (markersOf server sid)) \<subseteq> dom (inboundLinks server)"
    using assms(4,5) by (rule insert_subsetI)
  have "inboundLinks server' = inboundLinks server"
    by (simp add: s' afterMarker_view begun_view)
  then show ?thesis using subset_trans [OF 1 2] by simp
next
  case (TokenMessage n)
  with assms show ?thesis
    by (simp add: HandlePacket_token_view del: HandlePacket.simps)
next
  case OtherMessage
  with assms show ?thesis by auto
qed

subsection \<open>The topology and the servers stay well-formed\<close>

declare step.simps [simp del]

lemma serversOk_upd:
  assumes "serversOk heap" and "snapshotsConsistent server'"
    and "\<And>sid. dom (markersOf server' sid) \<subseteq> dom (inboundLinks server')"
  shows "serversOk (heap(p \<mapsto> server'))"
  using assms unfolding serversOk_def by (auto split: if_splits)

lemma serversOk_facts:
  assumes "serversOk heap" and "heap p = Some server"
  shows "snapshotsConsistent server" and "dom (markersOf server sid) \<subseteq> dom (inboundLinks server)"
  using assms unfolding serversOk_def by blast+

lemma sameShape_SendTokens:
  "SendTokens rt server n d = Inr (server', log) \<Longrightarrow> sameShape server server'"
  by (simp add: sameShape_def SendTokens_view)

lemma sameShape_begun: "sameShape server (fst (begun rt server sid))"
  by (simp add: sameShape_def begun_view)

lemma step_topologyOk:
  assumes "step w act = Inr w'" and "topologyOk (servers w)" and "serversOk (servers w)"
  shows "topologyOk (servers w')"
proof (cases act)
  case (PassTokens p n d rt)
  with assms(1) have "step w (PassTokens p n d rt) = Inr w'" by simp
  then obtain server server' log where "servers w p = Some server"
    "SendTokens rt server n d = Inr (server', log)" "servers w' = (servers w)(p \<mapsto> server')"
    "calls w' = calls w @ log"
    by (rule step_PassTokens_Inr)
  then show ?thesis
    using assms(2) by (simp add: topologyOk_upd sameShape_SendTokens)
next
  case (Snapshot p sid rt)
  with assms(1) have "step w (Snapshot p sid rt) = Inr w'" by simp
  then obtain server where "servers w p = Some server" "\<not> hasReceivedSnapshot server sid"
    "servers w' = (servers w)(p \<mapsto> fst (begun rt server sid))"
    "calls w' = calls w @ snd (begun rt server sid)"
    by (rule step_Snapshot_Inr)
  then show ?thesis
    using assms(2) by (simp add: topologyOk_upd sameShape_begun)
next
  case (Deliver a b rt)
  with assms(1) have "step w (Deliver a b rt) = Inr w'" by simp
  then obtain sa e es sb sb' log where sa: "servers w a = Some sa"
    and bd: "b \<in> dom (outboundLinks sa)" and q: "queueOf sa b = e # es"
    and ab: "a \<noteq> b" and sb: "servers w b = Some sb"
    and h: "HandlePacket rt sb a (ev_message e) = Inr (sb', log)"
    and w': "servers w' = (servers w)(a \<mapsto> popped sa b, b \<mapsto> sb')"
    and c': "calls w' = calls w @ log"
    using assms(2) by (rule step_Deliver_Inr)
  have 1: "topologyOk ((servers w)(a \<mapsto> popped sa b))"
    using assms(2) sa by (simp add: topologyOk_upd popped_view)
  have 2: "((servers w)(a \<mapsto> popped sa b)) b = Some sb" using sb ab by simp
  have 3: "sameShape sb sb'"
    using h serversOk_facts(1) [OF assms(3) sb] topologyOk_facts(2) [OF assms(2) sb]
    by (rule HandlePacket_shape)
  show ?thesis
    unfolding w' by (rule topologyOk_upd [OF 1 2 3])
qed

lemma step_serversOk:
  assumes "step w act = Inr w'" and "topologyOk (servers w)" and "serversOk (servers w)"
  shows "serversOk (servers w')"
proof (cases act)
  case (PassTokens p n d rt)
  with assms(1) have "step w (PassTokens p n d rt) = Inr w'" by simp
  then obtain server server' log where s: "servers w p = Some server"
    and t: "SendTokens rt server n d = Inr (server', log)"
    and w': "servers w' = (servers w)(p \<mapsto> server')"
    and c': "calls w' = calls w @ log"
    by (rule step_PassTokens_Inr)
  show ?thesis
    unfolding w' using assms(3) serversOk_facts [OF assms(3) s]
    by (intro serversOk_upd) (simp_all add: SendTokens_view [OF t])
next
  case (Snapshot p sid rt)
  with assms(1) have "step w (Snapshot p sid rt) = Inr w'" by simp
  then obtain server where s: "servers w p = Some server"
    and ns: "\<not> hasReceivedSnapshot server sid"
    and w': "servers w' = (servers w)(p \<mapsto> fst (begun rt server sid))"
    and c': "calls w' = calls w @ snd (begun rt server sid)"
    by (rule step_Snapshot_Inr)
  show ?thesis
    unfolding w' using assms(3) serversOk_facts [OF assms(3) s]
    by (intro serversOk_upd) (simp_all add: begun_view)
next
  case (Deliver a b rt)
  with assms(1) have "step w (Deliver a b rt) = Inr w'" by simp
  then obtain sa e es sb sb' log where sa: "servers w a = Some sa"
    and bd: "b \<in> dom (outboundLinks sa)" and q: "queueOf sa b = e # es"
    and ab: "a \<noteq> b" and sb: "servers w b = Some sb"
    and h: "HandlePacket rt sb a (ev_message e) = Inr (sb', log)"
    and w': "servers w' = (servers w)(a \<mapsto> popped sa b, b \<mapsto> sb')"
    and c': "calls w' = calls w @ log"
    using assms(2) by (rule step_Deliver_Inr)
  have 1: "serversOk ((servers w)(a \<mapsto> popped sa b))"
    using assms(3) serversOk_facts [OF assms(3) sa]
    by (intro serversOk_upd) (simp_all add: popped_view)
  from topologyOk_link(2) [OF assms(2) sa bd] sb have ain: "a \<in> dom (inboundLinks sb)" by auto
  note c = serversOk_facts(1) [OF assms(3) sb] and f = topologyOk_facts(2) [OF assms(2) sb]
  show ?thesis
    unfolding w' using 1
  proof (rule serversOk_upd)
    show "snapshotsConsistent sb'" using h c f by (rule HandlePacket_shape)
    show "dom (markersOf sb' sid) \<subseteq> dom (inboundLinks sb')" for sid
      using h c f ain serversOk_facts(2) [OF assms(3) sb] by (rule HandlePacket_markers_subset)
  qed
qed

subsection \<open>The steps, seen through queues, markers and values\<close>

lemma PassTokens_views:
  assumes "heap p = Some server" and "SendTokens rt server n d = Inr (server', log)"
  defines "heap' \<equiv> heap(p \<mapsto> server')"
  shows "dom heap' = dom heap" and "channels heap' = channels heap"
    and "(p, d) \<in> channels heap"
    and "queue heap' x y = queue heap x y @
           (if x = p \<and> y = d then [SendMessageEvent (Id server) d (TokenMessage n) rt] else [])"
    and "startedAt heap' sid q = startedAt heap sid q"
    and "markersAt heap' sid q = markersAt heap sid q"
    and "valAt heap' sid q = valAt heap sid q - (if q = p \<and> \<not> startedAt heap sid p then n else 0)"
proof -
  note v = SendTokens_view [OF assms(2)] and s = views_Some [of heap p server, OF assms(1)]
  show "dom heap' = dom heap" using assms(1) by (auto simp: heap'_def)
  show "channels heap' = channels heap"
    unfolding heap'_def using assms(1) v(8) by (rule channels_upd)
  show "(p, d) \<in> channels heap" using assms(1) v(1) by (auto simp: channels_def)
  show "queue heap' x y = queue heap x y @
           (if x = p \<and> y = d then [SendMessageEvent (Id server) d (TokenMessage n) rt] else [])"
    by (simp add: heap'_def v s)
  show "startedAt heap' sid q = startedAt heap sid q" by (simp add: heap'_def v s)
  show "markersAt heap' sid q = markersAt heap sid q" by (simp add: heap'_def v s)
  show "valAt heap' sid q = valAt heap sid q - (if q = p \<and> \<not> startedAt heap sid p then n else 0)"
    by (simp add: heap'_def v s)
qed

lemma Snapshot_views:
  fixes rt :: "string \<Rightarrow> go_int" and sid0 :: go_int
  assumes "heap p = Some server" and "finite (dom (outboundLinks server))"
    and "snapshotsConsistent server"
  defines "heap' \<equiv> heap(p \<mapsto> fst (begun rt server sid0))"
  shows "dom heap' = dom heap" and "channels heap' = channels heap"
    and "queue heap' x y = queue heap x y @
           (if x = p \<and> \<not> startedAt heap sid0 p then markerEvent rt server sid0 y else [])"
    and "startedAt heap' sid q \<longleftrightarrow> startedAt heap sid q \<or> (q = p \<and> sid = sid0)"
    and "markersAt heap' sid q = markersAt heap sid q"
    and "valAt heap' sid q = valAt heap sid q"
proof -
  note s = views_Some [of heap p server, OF assms(1)]
  show "dom heap' = dom heap" using assms(1) by (auto simp: heap'_def)
  show "channels heap' = channels heap"
    unfolding heap'_def using assms(1) begun_view(6) by (rule channels_upd)
  show "queue heap' x y = queue heap x y @
           (if x = p \<and> \<not> startedAt heap sid0 p then markerEvent rt server sid0 y else [])"
    using assms(2) by (simp add: heap'_def begun_queueOf s)
  show "startedAt heap' sid q \<longleftrightarrow> startedAt heap sid q \<or> (q = p \<and> sid = sid0)"
    by (auto simp: heap'_def begun_view s)
  show "markersAt heap' sid q = markersAt heap sid q"
    using assms(3) by (simp add: heap'_def begun_view s)
  show "valAt heap' sid q = valAt heap sid q" by (simp add: heap'_def begun_view s)
qed

lemma Deliver_views:
  fixes sb' :: Server
  assumes "heap a = Some sa" and "b \<in> dom (outboundLinks sa)" and "a \<noteq> b"
    and "heap b = Some sb"
  defines "heap' \<equiv> heap(a \<mapsto> popped sa b, b \<mapsto> sb')"
  shows "dom heap' = dom heap"
    and "dom (outboundLinks sb') = dom (outboundLinks sb) \<Longrightarrow> channels heap' = channels heap"
    and "(a, b) \<in> channels heap"
    and "queue heap' x y =
           (if x = b then queueOf sb' y
            else if x = a \<and> y = b then tl (queue heap a b) else queue heap x y)"
    and "startedAt heap' sid q = (if q = b then hasReceivedSnapshot sb' sid else startedAt heap sid q)"
    and "markersAt heap' sid q = (if q = b then markersOf sb' sid else markersAt heap sid q)"
    and "valAt heap' sid q = (if q = b then val sb' sid else valAt heap sid q)"
proof -
  note s = views_Some [of heap a sa, OF assms(1)]
  show "dom heap' = dom heap" using assms(1,4) by (auto simp: heap'_def)
  show "channels heap' = channels heap" if "dom (outboundLinks sb') = dom (outboundLinks sb)"
  proof -
    have 1: "channels (heap(a \<mapsto> popped sa b)) = channels heap"
      using assms(1) popped_view(5) [of sa b] by (intro channels_upd) (auto simp: sameShape_def)
    have 2: "(heap(a \<mapsto> popped sa b)) b = Some sb" using assms(3,4) by simp
    show ?thesis
      unfolding heap'_def
      using channels_upd [of "heap(a \<mapsto> popped sa b)" b sb sb', OF 2 that] 1 by simp
  qed
  show "(a, b) \<in> channels heap" using assms(1,2) by (auto simp: channels_def)
  show "queue heap' x y =
           (if x = b then queueOf sb' y
            else if x = a \<and> y = b then tl (queue heap a b) else queue heap x y)"
    by (simp add: heap'_def popped_view s)
  show "startedAt heap' sid q = (if q = b then hasReceivedSnapshot sb' sid else startedAt heap sid q)"
    by (simp add: heap'_def popped_view s)
  show "markersAt heap' sid q = (if q = b then markersOf sb' sid else markersAt heap sid q)"
    by (simp add: heap'_def popped_view s)
  show "valAt heap' sid q = (if q = b then val sb' sid else valAt heap sid q)"
    by (simp add: heap'_def popped_view s)
qed

lemma Deliver_token_views:
  fixes sb' :: Server
  assumes "heap a = Some sa" and "b \<in> dom (outboundLinks sa)" and "a \<noteq> b"
    and "heap b = Some sb" and "HandlePacket rt sb a (TokenMessage n) = Inr (sb', log)"
  defines "heap' \<equiv> heap(a \<mapsto> popped sa b, b \<mapsto> sb')"
  shows "dom heap' = dom heap" and "channels heap' = channels heap"
    and "queue heap' x y = (if x = a \<and> y = b then tl (queue heap a b) else queue heap x y)"
    and "startedAt heap' sid q = startedAt heap sid q"
    and "markersAt heap' sid q = markersAt heap sid q"
    and "valAt heap' sid q = valAt heap sid q +
           (if q = b \<and> \<not> (startedAt heap sid b \<and> seenAt heap sid b a) then n else 0)"
    and "log = []"
proof -
  note v = Deliver_views [where heap = heap, OF assms(1-4)]
    and t = HandlePacket_token_view [OF assms(5)]
    and s = views_Some [of heap b sb, OF assms(4)]
  show "dom heap' = dom heap" unfolding heap'_def by (rule v)
  show "channels heap' = channels heap" unfolding heap'_def by (rule v) (simp add: t)
  show "queue heap' x y = (if x = a \<and> y = b then tl (queue heap a b) else queue heap x y)"
    unfolding heap'_def v using assms(3) by (simp add: t s)
  show "startedAt heap' sid q = startedAt heap sid q"
    unfolding heap'_def v by (simp add: t s)
  show "markersAt heap' sid q = markersAt heap sid q"
    unfolding heap'_def v by (simp add: t s)
  show "valAt heap' sid q = valAt heap sid q +
           (if q = b \<and> \<not> (startedAt heap sid b \<and> seenAt heap sid b a) then n else 0)"
    unfolding heap'_def v by (simp add: t s seenAt_def markerSeen_def split: option.splits)
  show "log = []" by (rule t)
qed

lemma Deliver_other_views:
  assumes "heap a = Some sa" and "b \<in> dom (outboundLinks sa)" and "a \<noteq> b"
    and "heap b = Some sb"
  defines "heap' \<equiv> heap(a \<mapsto> popped sa b, b \<mapsto> sb)"
  shows "dom heap' = dom heap" and "channels heap' = channels heap"
    and "queue heap' x y = (if x = a \<and> y = b then tl (queue heap a b) else queue heap x y)"
    and "startedAt heap' sid q = startedAt heap sid q"
    and "markersAt heap' sid q = markersAt heap sid q"
    and "valAt heap' sid q = valAt heap sid q"
proof -
  note v = Deliver_views [where heap = heap, OF assms(1-4)]
    and s = views_Some [of heap b sb, OF assms(4)]
  show "dom heap' = dom heap" unfolding heap'_def by (rule v)
  show "channels heap' = channels heap" unfolding heap'_def by (rule v) simp
  show "queue heap' x y = (if x = a \<and> y = b then tl (queue heap a b) else queue heap x y)"
    unfolding heap'_def v using assms(3) by (simp add: s)
  show "startedAt heap' sid q = startedAt heap sid q"
    unfolding heap'_def v by (simp add: s)
  show "markersAt heap' sid q = markersAt heap sid q"
    unfolding heap'_def v by (simp add: s)
  show "valAt heap' sid q = valAt heap sid q"
    unfolding heap'_def v by (simp add: s)
qed

lemma Deliver_marker_views:
  fixes rt :: "string \<Rightarrow> go_int" and sid0 :: go_int
  assumes "heap a = Some sa" and "b \<in> dom (outboundLinks sa)" and "a \<noteq> b"
    and "heap b = Some sb" and "snapshotsConsistent sb" and "finite (dom (outboundLinks sb))"
  defines "sb' \<equiv> afterMarker (fst (begun rt sb sid0)) sid0 a"
  defines "heap' \<equiv> heap(a \<mapsto> popped sa b, b \<mapsto> sb')"
  shows "dom heap' = dom heap" and "channels heap' = channels heap"
    and "queue heap' x y =
           (if x = a \<and> y = b then tl (queue heap a b)
            else queue heap x y @
                   (if x = b \<and> \<not> startedAt heap sid0 b then markerEvent rt sb sid0 y else []))"
    and "startedAt heap' sid q \<longleftrightarrow> startedAt heap sid q \<or> (q = b \<and> sid = sid0)"
    and "markersAt heap' sid q =
           (if q = b \<and> sid = sid0 then (markersAt heap sid0 b)(a \<mapsto> True)
            else markersAt heap sid q)"
    and "valAt heap' sid q = valAt heap sid q"
proof -
  note v = Deliver_views [where heap = heap, OF assms(1-4)]
    and s = views_Some [of heap b sb, OF assms(4)]
  show "dom heap' = dom heap" unfolding heap'_def by (rule v)
  show "channels heap' = channels heap"
    unfolding heap'_def by (rule v) (simp add: sb'_def afterMarker_view begun_view)
  show "queue heap' x y =
           (if x = a \<and> y = b then tl (queue heap a b)
            else queue heap x y @
                   (if x = b \<and> \<not> startedAt heap sid0 b then markerEvent rt sb sid0 y else []))"
    unfolding heap'_def v using assms(3,6)
    by (simp add: sb'_def afterMarker_view begun_queueOf s)
  show "startedAt heap' sid q \<longleftrightarrow> startedAt heap sid q \<or> (q = b \<and> sid = sid0)"
    unfolding heap'_def v by (auto simp: sb'_def afterMarker_view begun_view s)
  show "markersAt heap' sid q =
           (if q = b \<and> sid = sid0 then (markersAt heap sid0 b)(a \<mapsto> True)
            else markersAt heap sid q)"
    unfolding heap'_def v using assms(5) by (simp add: sb'_def afterMarker_view begun_view s)
  show "valAt heap' sid q = valAt heap sid q"
    unfolding heap'_def v by (simp add: sb'_def afterMarker_view begun_view s)
qed

subsection \<open>One marker per link and snapshot\<close>

lemma markersOk_D:
  assumes "markersOk heap" and "(a, b) \<in> channels heap"
  shows "markerCount sid (queue heap a b) + (if seenAt heap sid b a then 1 else 0) =
          (if startedAt heap sid a then 1 else 0)"
  using assms unfolding markersOk_def by blast

lemma markerCount_markerEvent:
  assumes "heap p = Some server" and "(p, y) \<in> channels heap"
  shows "markerCount sid (markerEvent rt server sid0 y) = (if sid = sid0 then 1 else 0)"
  using assms by (auto simp: channels_def markerEvent_def)

lemma seenAt_not_started:
  assumes "serversOk heap" and "\<not> startedAt heap sid b"
  shows "\<not> seenAt heap sid b a"
proof (cases "heap b")
  case None
  then show ?thesis by (simp add: seenAt_def markersAt_def)
next
  case (Some sb)
  with assms(2) have "\<not> hasReceivedSnapshot sb sid" by (simp add: startedAt_def)
  with serversOk_facts(1) [OF assms(1) Some] have "inReceivedMarker sb sid = None"
    by (simp add: snapshotsConsistent_def)
  with Some show ?thesis by (simp add: seenAt_def markersAt_def markersOf_def)
qed

lemma step_markersOk:
  assumes "step w act = Inr w'" and "topologyOk (servers w)" and "serversOk (servers w)"
    and "markersOk (servers w)"
  shows "markersOk (servers w')"
proof (cases act)
  case (PassTokens p n d rt)
  with assms(1) have "step w (PassTokens p n d rt) = Inr w'" by simp
  then obtain server server' log where s: "servers w p = Some server"
    and t: "SendTokens rt server n d = Inr (server', log)"
    and w': "servers w' = (servers w)(p \<mapsto> server')"
    and c': "calls w' = calls w @ log"
    by (rule step_PassTokens_Inr)
  note v = PassTokens_views [where heap = "servers w", OF s t]
  show ?thesis
    unfolding markersOk_def w' v(2)
  proof (intro allI impI)
    fix sid x y
    assume c: "(x, y) \<in> channels (servers w)"
    note m = markersOk_D [OF assms(4) c, of sid]
    show "markerCount sid (queue ((servers w)(p \<mapsto> server')) x y) +
          (if seenAt ((servers w)(p \<mapsto> server')) sid y x then 1 else 0) =
          (if startedAt ((servers w)(p \<mapsto> server')) sid x then 1 else 0)"
      unfolding seenAt_def v(4,5,6) using m by (auto simp: seenAt_def split: if_splits)
  qed
next
  case (Snapshot p sid0 rt)
  with assms(1) have "step w (Snapshot p sid0 rt) = Inr w'" by simp
  then obtain server where s: "servers w p = Some server"
    and ns: "\<not> hasReceivedSnapshot server sid0"
    and w': "servers w' = (servers w)(p \<mapsto> fst (begun rt server sid0))"
    and c': "calls w' = calls w @ snd (begun rt server sid0)"
    by (rule step_Snapshot_Inr)
  note v = Snapshot_views [where heap = "servers w" and rt = rt and ?sid0.0 = sid0,
      OF s topologyOk_facts(2) [where heap = "servers w", OF assms(2) s]
      serversOk_facts(1) [where heap = "servers w", OF assms(3) s]]
  have ns': "\<not> startedAt (servers w) sid0 p" using s ns by (simp add: startedAt_def)
  show ?thesis
    unfolding markersOk_def w' v(2)
  proof (intro allI impI)
    fix sid x y
    assume c: "(x, y) \<in> channels (servers w)"
    note m = markersOk_D [OF assms(4) c, of sid]
    show "markerCount sid (queue ((servers w)(p \<mapsto> fst (begun rt server sid0))) x y) +
          (if seenAt ((servers w)(p \<mapsto> fst (begun rt server sid0))) sid y x then 1 else 0) =
          (if startedAt ((servers w)(p \<mapsto> fst (begun rt server sid0))) sid x then 1 else 0)"
    proof (cases "x = p")
      case True
      with c s have mc: "markerCount sid (markerEvent rt server sid0 y) = (if sid = sid0 then 1 else 0)"
        by (simp add: markerCount_markerEvent)
      show ?thesis
        unfolding seenAt_def v(3,4,5) using m ns' True mc
        by (auto simp: seenAt_def split: if_splits)
    next
      case False
      then show ?thesis
        unfolding seenAt_def v(3,4,5) using m by (auto simp: seenAt_def split: if_splits)
    qed
  qed
next
  case (Deliver a b rt)
  with assms(1) have "step w (Deliver a b rt) = Inr w'" by simp
  then obtain sa e es sb sb' log where sa: "servers w a = Some sa"
    and bd: "b \<in> dom (outboundLinks sa)" and q: "queueOf sa b = e # es"
    and ab: "a \<noteq> b" and sb: "servers w b = Some sb"
    and h: "HandlePacket rt sb a (ev_message e) = Inr (sb', log)"
    and w': "servers w' = (servers w)(a \<mapsto> popped sa b, b \<mapsto> sb')"
    and c': "calls w' = calls w @ log"
    using assms(2) by (rule step_Deliver_Inr)
  note cs = serversOk_facts(1) [where heap = "servers w", OF assms(3) sb]
    and fs = topologyOk_facts(2) [where heap = "servers w", OF assms(2) sb]
  have qa: "queue (servers w) a b = e # es" using sa q by (simp add: queue_def)
  have ca: "(a, b) \<in> channels (servers w)" using sa bd by (auto simp: channels_def)
  show ?thesis
  proof (cases "ev_message e")
    case (TokenMessage n)
    note v = Deliver_token_views [where heap = "servers w", OF sa bd ab sb h [unfolded TokenMessage]]
    show ?thesis
      unfolding markersOk_def w' v(2)
    proof (intro allI impI)
      fix sid x y
      assume c: "(x, y) \<in> channels (servers w)"
      note m = markersOk_D [OF assms(4) c, of sid]
      show "markerCount sid (queue ((servers w)(a \<mapsto> popped sa b, b \<mapsto> sb')) x y) +
            (if seenAt ((servers w)(a \<mapsto> popped sa b, b \<mapsto> sb')) sid y x then 1 else 0) =
            (if startedAt ((servers w)(a \<mapsto> popped sa b, b \<mapsto> sb')) sid x then 1 else 0)"
        unfolding seenAt_def v(3,4,5) using m qa TokenMessage
        by (auto simp: seenAt_def split: if_splits)
    qed
  next
    case OtherMessage
    with h have sb': "sb' = sb" by simp
    note v = Deliver_other_views [where heap = "servers w", OF sa bd ab sb]
    show ?thesis
      unfolding markersOk_def w' sb' v(2)
    proof (intro allI impI)
      fix sid x y
      assume c: "(x, y) \<in> channels (servers w)"
      note m = markersOk_D [OF assms(4) c, of sid]
      show "markerCount sid (queue ((servers w)(a \<mapsto> popped sa b, b \<mapsto> sb)) x y) +
            (if seenAt ((servers w)(a \<mapsto> popped sa b, b \<mapsto> sb)) sid y x then 1 else 0) =
            (if startedAt ((servers w)(a \<mapsto> popped sa b, b \<mapsto> sb)) sid x then 1 else 0)"
        unfolding seenAt_def v(3,4,5) using m qa OtherMessage
        by (auto simp: seenAt_def split: if_splits)
    qed
  next
    case (MarkerMessage sid0)
    with h cs fs have sb': "sb' = afterMarker (fst (begun rt sb sid0)) sid0 a"
      by (simp add: HandlePacket_marker_eq del: HandlePacket.simps)
    note v = Deliver_marker_views [where heap = "servers w" and rt = rt and ?sid0.0 = sid0,
        OF sa bd ab sb cs fs]
    show ?thesis
      unfolding markersOk_def w' sb' v(2)
    proof (intro allI impI)
      fix sid x y
      assume c: "(x, y) \<in> channels (servers w)"
      note m = markersOk_D [OF assms(4) c, of sid]
      have xy: "x \<noteq> y"
        using c assms(2) by (auto simp: channels_def topologyOk_def)
      have mc: "x = b \<Longrightarrow> markerCount sid (markerEvent rt sb sid0 y) = (if sid = sid0 then 1 else 0)"
        using c sb by (simp add: markerCount_markerEvent)
      show "markerCount sid (queue ((servers w)(a \<mapsto> popped sa b,
                b \<mapsto> afterMarker (fst (begun rt sb sid0)) sid0 a)) x y) +
            (if seenAt ((servers w)(a \<mapsto> popped sa b,
                b \<mapsto> afterMarker (fst (begun rt sb sid0)) sid0 a)) sid y x then 1 else 0) =
            (if startedAt ((servers w)(a \<mapsto> popped sa b,
                b \<mapsto> afterMarker (fst (begun rt sb sid0)) sid0 a)) sid x then 1 else 0)"
        unfolding seenAt_def v(3,4,5) using m qa MarkerMessage xy ab mc
        by (auto simp: seenAt_def split: if_splits)
    qed
  qed
qed

subsection \<open>Completion is reported once\<close>

lemma notifications_append [simp]:
  "notifications (cs @ ds) p sid = notifications cs p sid + notifications ds p sid"
  by (simp add: notifications_def)

lemma notifications_none:
  "NotifySnapshotComplete p sid \<notin> set cs \<Longrightarrow> notifications cs p sid = 0"
  by (simp add: notifications_def)

lemma notifications_notifyIfComplete:
  "notifications (notifyIfComplete server sid0) p sid =
     (if p = Id server \<and> sid = sid0 \<and> len (markersOf server sid0) = len (inboundLinks server)
      then 1 else 0)"
  by (auto simp: notifications_def notifyIfComplete_def)

lemma notificationsOk_D:
  assumes "notificationsOk w" and "servers w p = Some server"
  shows "notifications (calls w) p sid =
          (if inboundLinks server \<noteq> Map.empty \<and>
              len (markersOf server sid) = len (inboundLinks server)
           then 1 else 0)"
  using assms unfolding notificationsOk_def by blast

text \<open>A server that still misses the marker of an inbound link has not got them all.\<close>

lemma len_markers_less:
  assumes "dom m \<subseteq> dom inb" and "finite (dom inb)" and "a \<in> dom inb" and "a \<notin> dom m"
  shows "len m \<noteq> len inb"
proof -
  have "dom m \<subset> dom inb" using assms(1,3,4) by blast
  with assms(2) have "card (dom m) < card (dom inb)" by (rule psubset_card_mono)
  then show ?thesis by (simp add: len_def)
qed

lemma marker_in_queue_not_seen:
  assumes "markersOk heap" and "serversOk heap" and "(a, b) \<in> channels heap"
    and "heap b = Some sb" and "queue heap a b = e # es" and "ev_message e = MarkerMessage sid"
  shows "a \<notin> dom (markersOf sb sid)"
proof
  assume "a \<in> dom (markersOf sb sid)"
  then obtain v where v: "markersOf sb sid a = Some v" by auto
  with serversOk_facts(1) [where heap = heap, OF assms(2,4)] have "v"
    unfolding snapshotsConsistent_def by blast
  with v assms(4) have "seenAt heap sid b a" by (simp add: seenAt_def markersAt_def)
  with markersOk_D [OF assms(1,3), of sid] assms(5,6) show False
    by (simp split: if_splits)
qed

lemma step_notificationsOk:
  assumes "step w act = Inr w'" and "topologyOk (servers w)" and "serversOk (servers w)"
    and "markersOk (servers w)" and "notificationsOk w"
  shows "notificationsOk w'"
proof (cases act)
  case (PassTokens p n d rt)
  with assms(1) have "step w (PassTokens p n d rt) = Inr w'" by simp
  then obtain server server' log where s: "servers w p = Some server"
    and t: "SendTokens rt server n d = Inr (server', log)"
    and w': "servers w' = (servers w)(p \<mapsto> server')"
    and c': "calls w' = calls w @ log"
    by (rule step_PassTokens_Inr)
  note v = SendTokens_view [OF t]
  show ?thesis
    unfolding notificationsOk_def
  proof (intro allI impI)
    fix q sq sid
    assume q: "servers w' q = Some sq"
    have l: "notifications log q sid = 0" using v(10) by (rule notifications_none)
    show "notifications (calls w') q sid =
          (if inboundLinks sq \<noteq> Map.empty \<and> len (markersOf sq sid) = len (inboundLinks sq)
           then 1 else 0)"
    proof (cases "q = p")
      case True
      with q w' have "sq = server'" by simp
      then show ?thesis
        using notificationsOk_D [OF assms(5) s, of sid] l True by (simp add: c' v)
    next
      case False
      with q w' have "servers w q = Some sq" by simp
      from notificationsOk_D [OF assms(5) this, of sid] l show ?thesis by (simp add: c')
    qed
  qed
next
  case (Snapshot p sid0 rt)
  with assms(1) have "step w (Snapshot p sid0 rt) = Inr w'" by simp
  then obtain server where s: "servers w p = Some server"
    and ns: "\<not> hasReceivedSnapshot server sid0"
    and w': "servers w' = (servers w)(p \<mapsto> fst (begun rt server sid0))"
    and c': "calls w' = calls w @ snd (begun rt server sid0)"
    by (rule step_Snapshot_Inr)
  note cs = serversOk_facts(1) [where heap = "servers w", OF assms(3) s]
  show ?thesis
    unfolding notificationsOk_def
  proof (intro allI impI)
    fix q sq sid
    assume q: "servers w' q = Some sq"
    have l: "notifications (snd (begun rt server sid0)) q sid = 0"
      using begun_view(8) by (rule notifications_none)
    show "notifications (calls w') q sid =
          (if inboundLinks sq \<noteq> Map.empty \<and> len (markersOf sq sid) = len (inboundLinks sq)
           then 1 else 0)"
    proof (cases "q = p")
      case True
      with q w' have "sq = fst (begun rt server sid0)" by simp
      then show ?thesis
        using notificationsOk_D [OF assms(5) s, of sid] l cs True by (simp add: c' begun_view)
    next
      case False
      with q w' have "servers w q = Some sq" by simp
      from notificationsOk_D [OF assms(5) this, of sid] l show ?thesis by (simp add: c')
    qed
  qed
next
  case (Deliver a b rt)
  with assms(1) have "step w (Deliver a b rt) = Inr w'" by simp
  then obtain sa e es sb sb' log where sa: "servers w a = Some sa"
    and bd: "b \<in> dom (outboundLinks sa)" and q: "queueOf sa b = e # es"
    and ab: "a \<noteq> b" and sb: "servers w b = Some sb"
    and h: "HandlePacket rt sb a (ev_message e) = Inr (sb', log)"
    and w': "servers w' = (servers w)(a \<mapsto> popped sa b, b \<mapsto> sb')"
    and c': "calls w' = calls w @ log"
    using assms(2) by (rule step_Deliver_Inr)
  note cs = serversOk_facts(1) [where heap = "servers w", OF assms(3) sb]
    and fs = topologyOk_facts(2) [where heap = "servers w", OF assms(2) sb]
  have qa: "queue (servers w) a b = e # es" using sa q by (simp add: queue_def)
  have ca: "(a, b) \<in> channels (servers w)" using sa bd by (auto simp: channels_def)
  from topologyOk_link(2) [where heap = "servers w", OF assms(2) sa bd] sb
  have ain: "a \<in> dom (inboundLinks sb)" by auto
  have idb: "Id sb = b" using assms(2) sb by (rule topologyOk_facts)
  have key: "notifications log q sid =
               (if q = b \<and> (\<exists>sid0. ev_message e = MarkerMessage sid0 \<and> sid = sid0) \<and>
                   len (markersOf sb' sid) = len (inboundLinks sb) then 1 else 0)"
    and inb: "inboundLinks sb' = inboundLinks sb"
    and mk: "markersOf sb' sid =
              (if ev_message e = MarkerMessage sid then (markersOf sb sid)(a \<mapsto> True)
               else markersOf sb sid)" for q sid
  proof -
    show "inboundLinks sb' = inboundLinks sb"
      using HandlePacket_shape(1) [OF h cs fs] by (simp add: sameShape_def)
    show "markersOf sb' sid =
              (if ev_message e = MarkerMessage sid then (markersOf sb sid)(a \<mapsto> True)
               else markersOf sb sid)"
    proof (cases "ev_message e")
      case (MarkerMessage sid0)
      with h cs fs have "sb' = afterMarker (fst (begun rt sb sid0)) sid0 a"
        by (simp add: HandlePacket_marker_eq del: HandlePacket.simps)
      with MarkerMessage cs show ?thesis by (simp add: afterMarker_view begun_view)
    next
      case (TokenMessage n)
      with h show ?thesis by (simp add: HandlePacket_token_view del: HandlePacket.simps)
    next
      case OtherMessage
      with h show ?thesis by simp
    qed
    show "notifications log q sid =
               (if q = b \<and> (\<exists>sid0. ev_message e = MarkerMessage sid0 \<and> sid = sid0) \<and>
                   len (markersOf sb' sid) = len (inboundLinks sb) then 1 else 0)"
    proof (cases "ev_message e")
      case (MarkerMessage sid0)
      with h cs fs have s': "sb' = afterMarker (fst (begun rt sb sid0)) sid0 a"
        and l: "log = snd (begun rt sb sid0) @ notifyIfComplete sb' sid0"
        by (auto simp: HandlePacket_marker_eq simp del: HandlePacket.simps)
      have "notifications (snd (begun rt sb sid0)) q sid = 0"
        using begun_view(8) by (rule notifications_none)
      moreover have "Id sb' = b" "inboundLinks sb' = inboundLinks sb"
        using idb by (simp_all add: s' afterMarker_view begun_view)
      ultimately show ?thesis
        using MarkerMessage by (auto simp: l notifications_notifyIfComplete)
    next
      case (TokenMessage n)
      with h have "log = []" by (simp add: HandlePacket_token_view del: HandlePacket.simps)
      with TokenMessage show ?thesis by (simp add: notifications_def)
    next
      case OtherMessage
      with h show ?thesis by (auto simp: notifications_def)
    qed
  qed
  show ?thesis
    unfolding notificationsOk_def
  proof (intro allI impI)
    fix q sq sid
    assume sq: "servers w' q = Some sq"
    show "notifications (calls w') q sid =
          (if inboundLinks sq \<noteq> Map.empty \<and> len (markersOf sq sid) = len (inboundLinks sq)
           then 1 else 0)"
    proof (cases "q = b")
      case True
      with sq w' have [simp]: "sq = sb'" by simp
      note old = notificationsOk_D [OF assms(5) sb, of sid]
      have ne: "inboundLinks sb \<noteq> Map.empty" using ain by auto
      show ?thesis
      proof (cases "ev_message e = MarkerMessage sid")
        case True
        with marker_in_queue_not_seen [OF assms(4,3) ca sb qa]
        have "a \<notin> dom (markersOf sb sid)" by simp
        with len_markers_less [OF serversOk_facts(2) [where heap = "servers w", OF assms(3) sb]
            topologyOk_facts(3) [where heap = "servers w", OF assms(2) sb] ain]
        have "len (markersOf sb sid) \<noteq> len (inboundLinks sb)" by simp
        with old have "notifications (calls w) b sid = 0" by simp
        with True ne \<open>q = b\<close> show ?thesis by (simp add: c' key inb)
      next
        case False
        with old \<open>q = b\<close> show ?thesis by (auto simp: c' key inb mk)
      qed
    next
      case False
      have same: "inboundLinks sq = inboundLinks (the (servers w q)) \<and>
            markersOf sq sid = markersOf (the (servers w q)) sid \<and> servers w q \<noteq> None"
        using sq w' False sa by (cases "q = a") (auto simp: popped_view)
      then obtain s0 where s0: "servers w q = Some s0" by auto
      from notificationsOk_D [OF assms(5) s0, of sid] same s0 False show ?thesis
        by (simp add: c' key)
    qed
  qed
qed

subsection \<open>The system before the run\<close>

lemma addServers_fresh:
  assumes "\<forall>p server. heap p = Some server \<longrightarrow> (\<exists>toks. server = NewServer p toks)"
    and "finite (dom heap)"
  shows "(\<forall>p server. addServers srvs heap p = Some server \<longrightarrow> (\<exists>toks. server = NewServer p toks)) \<and>
         finite (dom (addServers srvs heap))"
  using assms
proof (induction srvs heap rule: addServers.induct)
  case (1 heap)
  then show ?case by simp
next
  case (2 ident toks rest heap)
  show ?case
    unfolding addServers.simps
  proof (rule "2.IH")
    show "\<forall>p server. (heap(ident \<mapsto> NewServer ident toks)) p = Some server \<longrightarrow>
            (\<exists>toks. server = NewServer p toks)"
      using "2.prems"(1) by auto
    show "finite (dom (heap(ident \<mapsto> NewServer ident toks)))"
      using "2.prems"(2) by simp
  qed
qed

lemma fresh_topologyOk:
  assumes "\<forall>p server. heap p = Some server \<longrightarrow> (\<exists>toks. server = NewServer p toks)"
    and "finite (dom heap)"
  shows "topologyOk heap" and "quiet heap"
proof -
  have f: "Id server = p \<and> outboundLinks server = Map.empty \<and> inboundLinks server = Map.empty \<and>
           receivedSnapshot server = Map.empty \<and> inReceivedMarker server = Map.empty \<and>
           snapshot server = Map.empty"
    if "heap p = Some server" for p server
  proof -
    from assms(1) that obtain toks where "server = NewServer p toks" by blast
    then show ?thesis by (simp add: NewServer_def)
  qed
  show "topologyOk heap"
    unfolding topologyOk_def using assms(2) f by simp
  show "quiet heap"
    unfolding quiet_def using f by (simp add: queueOf_def)
qed

lemma AddOutboundLink_Some:
  assumes "AddOutboundLink a b heap = Some heap'" and "a \<noteq> b"
  obtains sa sb where "heap a = Some sa" and "heap b = Some sb"
    and "heap' = heap(a \<mapsto> sa\<lparr>outboundLinks := (outboundLinks sa)(Id sb \<mapsto>
                     \<lparr>src = Id sa, dest = Id sb, events = []\<rparr>)\<rparr>,
                   b \<mapsto> sb\<lparr>inboundLinks := (inboundLinks sb)(Id sa \<mapsto> (a, Id sb))\<rparr>)"
  using assms by (auto simp: AddOutboundLink_def Let_def split: option.splits)

lemma AddOutboundLink_built:
  assumes "AddOutboundLink a b heap = Some heap'" and "topologyOk heap" and "quiet heap"
  shows "topologyOk heap'" and "quiet heap'"
proof -
  have "topologyOk heap' \<and> quiet heap'"
  proof (cases "a = b")
    case True
    with assms show ?thesis by (simp add: AddOutboundLink_def)
  next
    case False
    from assms(1) False obtain sa sb where sa: "heap a = Some sa" and sb: "heap b = Some sb"
      and h': "heap' = heap(a \<mapsto> sa\<lparr>outboundLinks := (outboundLinks sa)(Id sb \<mapsto>
                     \<lparr>src = Id sa, dest = Id sb, events = []\<rparr>)\<rparr>,
                   b \<mapsto> sb\<lparr>inboundLinks := (inboundLinks sb)(Id sa \<mapsto> (a, Id sb))\<rparr>)"
      by (rule AddOutboundLink_Some)
    have ia: "Id sa = a" and ib: "Id sb = b"
      using assms(2) sa sb by (auto simp: topologyOk_def)
    have q: "quiet heap'"
      using assms(3) sa sb False unfolding quiet_def h'
      by (auto simp: queueOf_def split: if_splits)
    have t: "topologyOk heap'"
      unfolding topologyOk_def
    proof (intro conjI allI impI)
      show "finite (dom heap')" using assms(2) by (simp add: h' topologyOk_def)
    next
      fix p s
      assume p: "heap' p = Some s"
      define s0 where "s0 = (if p = a then sa else if p = b then sb else s)"
      have s0: "heap p = Some s0" using p sa sb by (auto simp: s0_def h' split: if_splits)
      have o: "dom (outboundLinks s) = (if p = a then insert b (dom (outboundLinks s0))
                 else dom (outboundLinks s0))"
        and i: "dom (inboundLinks s) = (if p = b then insert a (dom (inboundLinks s0))
                 else dom (inboundLinks s0))"
        and d: "Id s = Id s0"
        using p False ia ib by (auto simp: s0_def h' split: if_splits)
      from assms(2) s0 have t0: "Id s0 = p" "finite (dom (outboundLinks s0))"
        "finite (dom (inboundLinks s0))" "p \<notin> dom (outboundLinks s0)"
        "\<forall>d \<in> dom (outboundLinks s0). \<exists>sd. heap d = Some sd \<and> p \<in> dom (inboundLinks sd)"
        unfolding topologyOk_def by blast+
      show "Id s = p" using d t0(1) by simp
      show "finite (dom (outboundLinks s))" unfolding o using t0(2) by simp
      show "finite (dom (inboundLinks s))" unfolding i using t0(3) by simp
      show "p \<notin> dom (outboundLinks s)" unfolding o using t0(4) False by auto
      show "\<forall>d \<in> dom (outboundLinks s). \<exists>sd. heap' d = Some sd \<and> p \<in> dom (inboundLinks sd)"
      proof
        fix d assume dd: "d \<in> dom (outboundLinks s)"
        show "\<exists>sd. heap' d = Some sd \<and> p \<in> dom (inboundLinks sd)"
        proof (cases "p = a \<and> d = b")
          case True
          then show ?thesis using ia by (simp add: h')
        next
          case False
          with dd have "d \<in> dom (outboundLinks s0)" unfolding o by (auto split: if_splits)
          with t0(5) obtain sd where sd: "heap d = Some sd" "p \<in> dom (inboundLinks sd)" by blast
          then show ?thesis
            using sa sb by (cases "d = a"; cases "d = b") (auto simp: h')
        qed
      qed
    qed
    from t q show ?thesis ..
  qed
  then show "topologyOk heap'" and "quiet heap'" by simp_all
qed

lemma addLinks_built:
  assumes "addLinks links heap = Some heap'" and "topologyOk heap" and "quiet heap"
  shows "topologyOk heap' \<and> quiet heap'"
  using assms
proof (induction links heap rule: addLinks.induct)
  case (1 heap)
  then show ?case by simp
next
  case (2 a b rest heap)
  from "2.prems"(1) obtain heap1 where 1: "AddOutboundLink a b heap = Some heap1"
    and r: "addLinks rest heap1 = Some heap'"
    by (auto split: option.splits)
  from "2.IH" [OF 1 r AddOutboundLink_built [OF 1 "2.prems"(2,3)]] show ?case .
qed

lemma quiet_systemOk:
  assumes "topologyOk heap" and "quiet heap"
  shows "systemOk \<lparr>servers = heap, calls = []\<rparr>"
proof -
  have q: "hasReceivedSnapshot server sid = False" "markersOf server sid = Map.empty"
    "queueOf server d = []"
    if "heap p = Some server" for p server sid d
    using assms(2) that unfolding quiet_def
    by (auto simp: hasReceivedSnapshot_def markersOf_def)
  have "serversOk heap"
    unfolding serversOk_def snapshotsConsistent_def using q assms(2)
    by (auto simp: quiet_def)
  moreover have "markersOk heap"
    unfolding markersOk_def
  proof (intro allI impI)
    fix sid a b
    assume "(a, b) \<in> channels heap"
    then obtain sa where sa: "heap a = Some sa" by (auto simp: channels_def)
    have "markersAt heap sid b = Map.empty"
      by (cases "heap b") (simp_all add: markersAt_def q)
    then show "markerCount sid (queue heap a b) + (if seenAt heap sid b a then 1 else 0) =
               (if startedAt heap sid a then 1 else 0)"
      using sa by (simp add: seenAt_def startedAt_def queue_def q)
  qed
  moreover have "notificationsOk \<lparr>servers = heap, calls = []\<rparr>"
    unfolding notificationsOk_def using assms(1)
    by (auto simp: notifications_def q len_def topologyOk_def)
  ultimately show ?thesis using assms(1) by (simp add: systemOk_def)
qed

lemma newSystem_systemOk:
  assumes "newSystem srvs links = Some w"
  shows "systemOk w" and "quiet (servers w)"
proof -
  from assms obtain heap where l: "addLinks links (addServers srvs Map.empty) = Some heap"
    and w: "w = \<lparr>servers = heap, calls = []\<rparr>"
    by (auto simp: newSystem_def)
  have "(\<forall>p server. addServers srvs Map.empty p = Some server \<longrightarrow> (\<exists>toks. server = NewServer p toks)) \<and>
         finite (dom (addServers srvs Map.empty))"
    by (rule addServers_fresh) simp_all
  then have "topologyOk (addServers srvs Map.empty)" "quiet (addServers srvs Map.empty)"
    using fresh_topologyOk by blast+
  with addLinks_built [OF l] have b: "topologyOk heap" "quiet heap" by simp_all
  then show "systemOk w" unfolding w by (rule quiet_systemOk)
  show "quiet (servers w)" using b by (simp add: w)
qed

subsection \<open>Every run keeps the system well-formed\<close>

lemma step_systemOk:
  assumes "step w act = Inr w'" and "systemOk w"
  shows "systemOk w'"
  using assms step_topologyOk step_serversOk step_markersOk step_notificationsOk
  unfolding systemOk_def by blast

lemma run_systemOk:
  assumes "run w acts = Inr w'" and "systemOk w"
  shows "systemOk w'"
  using assms
proof (induction acts arbitrary: w)
  case Nil
  then show ?case by simp
next
  case (Cons act acts)
  from Cons.prems(1) obtain w1 where 1: "step w act = Inr w1" and r: "run w1 acts = Inr w'"
    by (auto split: sum.splits)
  from Cons.IH [OF r step_systemOk [OF 1 Cons.prems(2)]] show ?case .
qed

subsection \<open>The cut is conserved\<close>

lemma sum_change_one:
  fixes f g :: "'a \<Rightarrow> go_int"
  assumes "finite S" and "\<And>x. x \<in> S \<Longrightarrow> g x = f x + (if x = c then d else 0)"
  shows "sum g S = sum f S + (if c \<in> S then d else 0)"
proof -
  have "sum g S = sum (\<lambda>x. f x + (if x = c then d else 0)) S"
    using assms(2) by (intro sum.cong) simp_all
  also have "\<dots> = sum f S + sum (\<lambda>x. if x = c then d else 0) S"
    by (rule sum.distrib)
  also have "sum (\<lambda>x. if x = c then d else 0) S = (if c \<in> S then d else 0)"
    using assms(1) by (simp add: sum.delta)
  finally show ?thesis .
qed

lemma cut_change:
  assumes "topologyOk heap" and "dom heap' = dom heap" and "channels heap' = channels heap"
    and "\<And>q. q \<in> dom heap \<Longrightarrow> valAt heap' sid q = valAt heap sid q + (if q = p then dv else 0)"
    and "\<And>c. c \<in> channels heap \<Longrightarrow> pending heap' sid c = pending heap sid c + (if c = k then dp else 0)"
    and "p \<in> dom heap" and "k \<in> channels heap" and "dv + dp = 0"
  shows "cutOf heap' sid = cutOf heap sid"
proof -
  have "(\<Sum>q \<in> dom heap. valAt heap' sid q) = (\<Sum>q \<in> dom heap. valAt heap sid q) + dv"
    using sum_change_one [OF topologyOk_facts(5) [where heap = heap] assms(4)] assms(1,6)
    by (auto simp: topologyOk_def sum_change_one)
  moreover have "(\<Sum>c \<in> channels heap. pending heap' sid c) =
                 (\<Sum>c \<in> channels heap. pending heap sid c) + dp"
    using sum_change_one [OF finite_channels [OF assms(1)] assms(5)] assms(7) by simp
  ultimately show ?thesis
    using assms(8) unfolding cutOf_def assms(2,3) by (simp add: algebra_simps)
qed

lemma cut_same:
  assumes "dom heap' = dom heap" and "channels heap' = channels heap"
    and "\<And>q. q \<in> dom heap \<Longrightarrow> valAt heap' sid q = valAt heap sid q"
    and "\<And>c. c \<in> channels heap \<Longrightarrow> pending heap' sid c = pending heap sid c"
  shows "cutOf heap' sid = cutOf heap sid"
  unfolding cutOf_def assms(1,2) using assms(3,4) by simp

lemma inFlight_before_push_markerEvent:
  "inFlight (beforeMarker sid (es @ markerEvent rt server sid0 y)) = inFlight (beforeMarker sid es)"
proof (cases "outboundLinks server y")
  case None
  then show ?thesis by (simp add: markerEvent_def)
next
  case (Some link)
  then show ?thesis by (simp add: markerEvent_def inFlight_before_push_marker)
qed

lemma step_cut:
  assumes "step w act = Inr w'" and "topologyOk (servers w)" and "serversOk (servers w)"
    and "markersOk (servers w)"
  shows "cutOf (servers w') sid = cutOf (servers w) sid"
proof (cases act)
  case (PassTokens p n d rt)
  with assms(1) have "step w (PassTokens p n d rt) = Inr w'" by simp
  then obtain server server' log where s: "servers w p = Some server"
    and t: "SendTokens rt server n d = Inr (server', log)"
    and w': "servers w' = (servers w)(p \<mapsto> server')"
    and c': "calls w' = calls w @ log"
    by (rule step_PassTokens_Inr)
  note v = PassTokens_views [where heap = "servers w", OF s t]
  note m = markersOk_D [OF assms(4) v(3), of sid]
  define dv where "dv = (if startedAt (servers w) sid p then 0 else - n)"
  define dp where "dp = (if seenAt (servers w) sid d p then 0
                         else if markerCount sid (queue (servers w) p d) = 0 then n else 0)"
  show ?thesis
    unfolding w'
  proof (rule cut_change [OF assms(2) v(1,2), where p = p and k = "(p, d)" and dv = dv and dp = dp])
    show "valAt ((servers w)(p \<mapsto> server')) sid q =
            valAt (servers w) sid q + (if q = p then dv else 0)" for q
      unfolding v(7) by (simp add: dv_def)
    show "pending ((servers w)(p \<mapsto> server')) sid c =
            pending (servers w) sid c + (if c = (p, d) then dp else 0)" for c
      unfolding pending_def seenAt_def v(4,6)
      by (cases c) (auto simp: dp_def seenAt_def inFlight_before_push_token)
    show "p \<in> dom (servers w)" using s by auto
    show "(p, d) \<in> channels (servers w)" by (rule v(3))
    show "dv + dp = 0" using m by (auto simp: dv_def dp_def split: if_splits)
  qed
next
  case (Snapshot p sid0 rt)
  with assms(1) have "step w (Snapshot p sid0 rt) = Inr w'" by simp
  then obtain server where s: "servers w p = Some server"
    and ns: "\<not> hasReceivedSnapshot server sid0"
    and w': "servers w' = (servers w)(p \<mapsto> fst (begun rt server sid0))"
    and c': "calls w' = calls w @ snd (begun rt server sid0)"
    by (rule step_Snapshot_Inr)
  note v = Snapshot_views [where heap = "servers w" and rt = rt and ?sid0.0 = sid0,
      OF s topologyOk_facts(2) [where heap = "servers w", OF assms(2) s]
      serversOk_facts(1) [where heap = "servers w", OF assms(3) s]]
  show ?thesis
    unfolding w'
  proof (rule cut_same [OF v(1,2)])
    show "valAt ((servers w)(p \<mapsto> fst (begun rt server sid0))) sid q = valAt (servers w) sid q" for q
      by (rule v(6))
    show "pending ((servers w)(p \<mapsto> fst (begun rt server sid0))) sid c = pending (servers w) sid c"
      for c
      unfolding pending_def seenAt_def v(3,5)
      by (cases c) (simp add: inFlight_before_push_markerEvent)
  qed
next
  case (Deliver a b rt)
  with assms(1) have "step w (Deliver a b rt) = Inr w'" by simp
  then obtain sa e es sb sb' log where sa: "servers w a = Some sa"
    and bd: "b \<in> dom (outboundLinks sa)" and q: "queueOf sa b = e # es"
    and ab: "a \<noteq> b" and sb: "servers w b = Some sb"
    and h: "HandlePacket rt sb a (ev_message e) = Inr (sb', log)"
    and w': "servers w' = (servers w)(a \<mapsto> popped sa b, b \<mapsto> sb')"
    and c': "calls w' = calls w @ log"
    using assms(2) by (rule step_Deliver_Inr)
  note cs = serversOk_facts(1) [where heap = "servers w", OF assms(3) sb]
    and fs = topologyOk_facts(2) [where heap = "servers w", OF assms(2) sb]
  have qa: "queue (servers w) a b = e # es" using sa q by (simp add: queue_def)
  have ca: "(a, b) \<in> channels (servers w)" using sa bd by (auto simp: channels_def)
  show ?thesis
  proof (cases "ev_message e")
    case (TokenMessage n)
    note v = Deliver_token_views [where heap = "servers w", OF sa bd ab sb h [unfolded TokenMessage]]
    define dv where "dv = (if startedAt (servers w) sid b \<and> seenAt (servers w) sid b a then 0 else n)"
    define dp where "dp = (if seenAt (servers w) sid b a then 0 else - n)"
    show ?thesis
      unfolding w'
    proof (rule cut_change [OF assms(2) v(1,2), where p = b and k = "(a, b)" and dv = dv and dp = dp])
      show "valAt ((servers w)(a \<mapsto> popped sa b, b \<mapsto> sb')) sid q =
              valAt (servers w) sid q + (if q = b then dv else 0)" for q
        unfolding v(6) by (simp add: dv_def)
      show "pending ((servers w)(a \<mapsto> popped sa b, b \<mapsto> sb')) sid c =
              pending (servers w) sid c + (if c = (a, b) then dp else 0)" for c
        unfolding pending_def seenAt_def v(3,5) using qa TokenMessage
        by (cases c) (auto simp: dp_def seenAt_def)
      show "b \<in> dom (servers w)" using sb by auto
      show "(a, b) \<in> channels (servers w)" by (rule ca)
      show "dv + dp = 0"
        using seenAt_not_started [OF assms(3), of sid b a] by (auto simp: dv_def dp_def)
    qed
  next
    case OtherMessage
    with h have sb': "sb' = sb" by simp
    note v = Deliver_other_views [where heap = "servers w", OF sa bd ab sb]
    show ?thesis
      unfolding w' sb'
    proof (rule cut_same [OF v(1,2)])
      show "valAt ((servers w)(a \<mapsto> popped sa b, b \<mapsto> sb)) sid q = valAt (servers w) sid q" for q
        by (rule v(6))
      show "pending ((servers w)(a \<mapsto> popped sa b, b \<mapsto> sb)) sid c = pending (servers w) sid c"
        for c
        unfolding pending_def seenAt_def v(3,5) using qa OtherMessage
        by (cases c) auto
    qed
  next
    case (MarkerMessage sid0)
    with h cs fs have sb': "sb' = afterMarker (fst (begun rt sb sid0)) sid0 a"
      by (simp add: HandlePacket_marker_eq del: HandlePacket.simps)
    note v = Deliver_marker_views [where heap = "servers w" and rt = rt and ?sid0.0 = sid0,
        OF sa bd ab sb cs fs]
    show ?thesis
      unfolding w' sb'
    proof (rule cut_same [OF v(1,2)])
      show "valAt ((servers w)(a \<mapsto> popped sa b,
                b \<mapsto> afterMarker (fst (begun rt sb sid0)) sid0 a)) sid q = valAt (servers w) sid q"
        for q
        by (rule v(6))
      show "pending ((servers w)(a \<mapsto> popped sa b,
                b \<mapsto> afterMarker (fst (begun rt sb sid0)) sid0 a)) sid c = pending (servers w) sid c"
        if "c \<in> channels (servers w)" for c
      proof -
        obtain x y where c: "c = (x, y)" by (cases c)
        have xy: "x \<noteq> y"
          using that assms(2) unfolding c by (auto simp: channels_def topologyOk_def)
        show ?thesis
          unfolding c pending_def seenAt_def v(3,5) using qa MarkerMessage xy ab
          by (auto simp: inFlight_before_push_markerEvent)
      qed
    qed
  qed
qed

lemma run_cut:
  assumes "run w acts = Inr w'" and "systemOk w"
  shows "cutOf (servers w') sid = cutOf (servers w) sid"
  using assms
proof (induction acts arbitrary: w)
  case Nil
  then show ?case by simp
next
  case (Cons act acts)
  from Cons.prems(1) obtain w1 where 1: "step w act = Inr w1" and r: "run w1 acts = Inr w'"
    by (auto split: sum.splits)
  have "cutOf (servers w1) sid = cutOf (servers w) sid"
    using 1 Cons.prems(2) unfolding systemOk_def by (intro step_cut) simp_all
  with Cons.IH [OF r step_systemOk [OF 1 Cons.prems(2)]] show ?case by simp
qed

subsection \<open>The cut before and after the snapshot\<close>

lemma channels_Sigma:
  "channels heap = (SIGMA a:dom heap. dom (outboundLinks (the (heap a))))"
  by (auto simp: channels_def)

lemma systemTotal_channels:
  assumes "topologyOk heap"
  shows "systemTotal heap =
     (\<Sum>p \<in> dom heap. case heap p of None \<Rightarrow> 0 | Some server \<Rightarrow> Tokens server) +
     (\<Sum>c \<in> channels heap. case c of (a, b) \<Rightarrow> inFlight (queue heap a b))"
proof -
  have fin: "finite (dom heap)" "\<forall>a \<in> dom heap. finite (dom (outboundLinks (the (heap a))))"
    using assms by (auto simp: topologyOk_def)
  have "(\<Sum>p \<in> dom heap. case heap p of None \<Rightarrow> 0 | Some server \<Rightarrow> outQueued server) =
        (\<Sum>a \<in> dom heap. \<Sum>b \<in> dom (outboundLinks (the (heap a))). inFlight (queue heap a b))"
    by (intro sum.cong refl) (auto simp: outQueued_def queue_def queueOf_def intro!: sum.cong)
  also have "\<dots> = (\<Sum>c \<in> channels heap. case c of (a, b) \<Rightarrow> inFlight (queue heap a b))"
    unfolding channels_Sigma using fin by (rule sum.Sigma)
  finally have q: "(\<Sum>p \<in> dom heap. case heap p of None \<Rightarrow> 0 | Some server \<Rightarrow> outQueued server) =
        (\<Sum>c \<in> channels heap. case c of (a, b) \<Rightarrow> inFlight (queue heap a b))" .
  have "systemTotal heap =
     (\<Sum>p \<in> dom heap. (case heap p of None \<Rightarrow> 0 | Some server \<Rightarrow> Tokens server) +
        (case heap p of None \<Rightarrow> 0 | Some server \<Rightarrow> outQueued server))"
    unfolding systemTotal_def by (intro sum.cong refl) (auto split: option.splits)
  then show ?thesis by (simp add: sum.distrib q)
qed

lemma cut_before:
  assumes "systemOk w" and "noneStarted (servers w) sid"
  shows "cutOf (servers w) sid = systemTotal (servers w)"
proof -
  from assms(1) have t: "topologyOk (servers w)" and s: "serversOk (servers w)"
    and m: "markersOk (servers w)" by (simp_all add: systemOk_def)
  have ns: "\<not> startedAt (servers w) sid p" for p
    using assms(2) by (auto simp: noneStarted_def startedAt_def split: option.splits)
  have v: "valAt (servers w) sid p = (case servers w p of None \<Rightarrow> 0 | Some server \<Rightarrow> Tokens server)"
    for p
    using assms(2) by (auto simp: noneStarted_def valAt_def val_def split: option.splits)
  have p: "pending (servers w) sid c = (case c of (a, b) \<Rightarrow> inFlight (queue (servers w) a b))"
    if "c \<in> channels (servers w)" for c
  proof -
    obtain a b where c: "c = (a, b)" by (cases c)
    from markersOk_D [OF m that [unfolded c], of sid] ns
    have "\<not> seenAt (servers w) sid b a" and "markerCount sid (queue (servers w) a b) = 0"
      by (auto split: if_splits)
    then show ?thesis by (simp add: c pending_def beforeMarker_none)
  qed
  show ?thesis
    unfolding cutOf_def systemTotal_channels [OF t] using v p by simp
qed

lemma complete_seen_all:
  assumes "topologyOk heap" and "serversOk heap" and "heap b = Some sb"
    and "snapshotComplete sb sid" and "a \<in> dom (inboundLinks sb)"
  shows "markersOf sb sid a = Some True"
proof -
  have "dom (markersOf sb sid) = dom (inboundLinks sb)"
  proof (rule card_subset_eq)
    show "finite (dom (inboundLinks sb))" using assms(1,3) by (rule topologyOk_facts)
    show "dom (markersOf sb sid) \<subseteq> dom (inboundLinks sb)" using assms(2,3) by (rule serversOk_facts)
    show "card (dom (markersOf sb sid)) = card (dom (inboundLinks sb))"
      using assms(4) by (simp add: snapshotComplete_def len_def)
  qed
  with assms(5) obtain v where v: "markersOf sb sid a = Some v" by auto
  with serversOk_facts(1) [where heap = heap, OF assms(2,3)] have "v"
    unfolding snapshotsConsistent_def by blast
  with v show ?thesis by simp
qed

lemma cut_after:
  assumes "systemOk w" and "allComplete (servers w) sid"
  shows "cutOf (servers w) sid = snapshotTotal (servers w) sid"
proof -
  from assms(1) have t: "topologyOk (servers w)" and s: "serversOk (servers w)"
    by (simp_all add: systemOk_def)
  have v: "valAt (servers w) sid p = (case servers w p of None \<Rightarrow> 0 | Some server \<Rightarrow> recorded server sid)"
    for p
    using assms(2)
    by (auto simp: allComplete_def snapshotComplete_def valAt_def val_def split: option.splits)
  have p: "pending (servers w) sid c = 0" if "c \<in> channels (servers w)" for c
  proof -
    obtain a b where c: "c = (a, b)" by (cases c)
    from that obtain sa where sa: "servers w a = Some sa" and bd: "b \<in> dom (outboundLinks sa)"
      by (auto simp: c channels_def)
    from topologyOk_link(2) [where heap = "servers w", OF t sa bd] obtain sb where
      sb: "servers w b = Some sb" and ain: "a \<in> dom (inboundLinks sb)" by blast
    from assms(2) sb have "snapshotComplete sb sid" by (simp add: allComplete_def)
    from complete_seen_all [OF t s sb this ain] sb have "seenAt (servers w) sid b a"
      by (simp add: seenAt_def markersAt_def)
    then show ?thesis by (simp add: c pending_def)
  qed
  show ?thesis
    unfolding cutOf_def snapshotTotal_def using v p by simp
qed

text \<open>
  Claim C1.  Take a system built by \<open>NewServer\<close> and \<open>AddOutboundLink\<close> and run it: the
  servers pass tokens, start snapshots and receive the events of their links, each link
  in FIFO order, and nothing else changes a token count.  If no server has begun
  snapshot \<open>sid\<close> in the state \<open>w1\<close> and every server has completed it in a later state
  \<open>w2\<close>, then the recorded counts and the payloads of the captured messages of all
  records of \<open>sid\<close> add up to the tokens held and in flight in \<open>w1\<close>.
\<close>

theorem snapshot_conserves_resources:
  assumes "newSystem srvs links = Some w0"
    and "run w0 acts1 = Inr w1" and "noneStarted (servers w1) sid"
    and "run w1 acts2 = Inr w2" and "allComplete (servers w2) sid"
  shows "snapshotTotal (servers w2) sid = systemTotal (servers w1)"
proof -
  have ok1: "systemOk w1"
    using assms(2) newSystem_systemOk(1) [OF assms(1)] by (rule run_systemOk)
  have ok2: "systemOk w2" using assms(4) ok1 by (rule run_systemOk)
  have "snapshotTotal (servers w2) sid = cutOf (servers w2) sid"
    using cut_after [OF ok2 assms(5)] by simp
  also have "\<dots> = cutOf (servers w1) sid" using assms(4) ok1 by (rule run_cut)
  also have "\<dots> = systemTotal (servers w1)" using ok1 assms(3) by (rule cut_before)
  finally show ?thesis .
qed

text \<open>
  Claim C3, amended.  In every state of every run, a server that has at least one
  inbound link has reported the completion of snapshot \<open>sid\<close> exactly once if it has as
  many markers of \<open>sid\<close> as inbound links, and not at all otherwise: the report is made
  at the point where the last marker arrives, not before and not again.  For such a
  server, as many markers as inbound links means that it has started the snapshot and
  has the marker of every inbound link.  A server without inbound links never reports.
\<close>

theorem completion_reported_once:
  assumes "newSystem srvs links = Some w0" and "run w0 acts = Inr w"
    and "servers w p = Some server"
  shows "notifications (calls w) p sid =
           (if inboundLinks server \<noteq> Map.empty \<and>
               len (markersOf server sid) = len (inboundLinks server)
            then 1 else 0) \<and>
         (inboundLinks server \<noteq> Map.empty \<longrightarrow>
            (len (markersOf server sid) = len (inboundLinks server) \<longleftrightarrow>
               hasReceivedSnapshot server sid \<and>
               (\<forall>a \<in> dom (inboundLinks server). markerSeen server sid a)))"
proof (intro conjI impI)
  have ok: "systemOk w"
    using assms(2) newSystem_systemOk(1) [OF assms(1)] by (rule run_systemOk)
  then have t: "topologyOk (servers w)" and s: "serversOk (servers w)"
    and n: "notificationsOk w" by (simp_all add: systemOk_def)
  note c = serversOk_facts(1) [where heap = "servers w", OF s assms(3)]
  show "notifications (calls w) p sid =
           (if inboundLinks server \<noteq> Map.empty \<and>
               len (markersOf server sid) = len (inboundLinks server)
            then 1 else 0)"
    using n assms(3) by (rule notificationsOk_D)
  assume ne: "inboundLinks server \<noteq> Map.empty"
  then obtain a where a: "a \<in> dom (inboundLinks server)" by fastforce
  have "hasReceivedSnapshot server sid \<and> (\<forall>a \<in> dom (inboundLinks server). markerSeen server sid a)"
    if l: "len (markersOf server sid) = len (inboundLinks server)"
  proof
    have all: "markersOf server sid a = Some True" if "a \<in> dom (inboundLinks server)" for a
      using t s assms(3) _ that
    proof (rule complete_seen_all)
      show "snapshotComplete server sid"
      proof (rule ccontr)
        assume "\<not> snapshotComplete server sid"
        with l have "\<not> hasReceivedSnapshot server sid" by (simp add: snapshotComplete_def)
        with c have "markersOf server sid = Map.empty"
          by (simp add: snapshotsConsistent_def markersOf_def)
        with l have "card (dom (inboundLinks server)) = 0" by (simp add: len_def)
        with topologyOk_facts(3) [where heap = "servers w", OF t assms(3)] a show False by auto
      qed
    qed
    then show "\<forall>a \<in> dom (inboundLinks server). markerSeen server sid a"
      by (simp add: markerSeen_def)
    show "hasReceivedSnapshot server sid"
    proof (rule ccontr)
      assume "\<not> hasReceivedSnapshot server sid"
      with c have "markersOf server sid = Map.empty"
        by (simp add: snapshotsConsistent_def markersOf_def)
      with all [OF a] show False by simp
    qed
  qed
  moreover have "len (markersOf server sid) = len (inboundLinks server)"
    if "hasReceivedSnapshot server sid \<and> (\<forall>a \<in> dom (inboundLinks server). markerSeen server sid a)"
  proof -
    from that have "dom (inboundLinks server) \<subseteq> dom (markersOf server sid)"
      by (auto simp: markerSeen_def split: option.splits)
    with serversOk_facts(2) [where heap = "servers w", OF s assms(3), of sid]
    have "dom (markersOf server sid) = dom (inboundLinks server)" by (rule equalityI)
    then show ?thesis by (simp add: len_def)
  qed
  ultimately show "len (markersOf server sid) = len (inboundLinks server) \<longleftrightarrow>
               hasReceivedSnapshot server sid \<and>
               (\<forall>a \<in> dom (inboundLinks server). markerSeen server sid a)"
    by blast
qed

subsection \<open>Running the system on given servers\<close>

lemma capture_captureIn:
  "capture server a msg =
     captureIn (\<lambda>sid. capturing server sid a) (SnapshotMessage a (Id server) msg) (snapshot server)"
  by (simp add: capture_def captureIn_def fun_eq_iff)

lemma captureIn_empty: "captureIn c m Map.empty = Map.empty"
  by (simp add: captureIn_def fun_eq_iff)

lemma captureIn_upd:
  "captureIn c m (snap(sid \<mapsto> st)) =
     (captureIn c m snap)(sid \<mapsto> if c sid then st\<lparr>messages := messages st @ [m]\<rparr> else st)"
  by (auto simp: captureIn_def fun_eq_iff)

lemmas run_simps = step.simps newSystem_def AddOutboundLink_def NewServer_def Let_def
  SendTokens_def StartSnapshot_def SendToNeighbors_def sendOne_def getSortedKeys_def
  hasReceivedSnapshot_def markersOf_def markerSeen_def recordMarker_def notifyIfComplete_def
  len_def capture_captureIn captureIn_empty captureIn_upd capturing_def

lemma race_built:
  "newSystem [(''A'', 10), (''B'', 3)] [(''A'', ''B''), (''B'', ''A'')] = Some raceStart"
  by (simp add: run_simps raceStart_def)

lemma race_before: "run raceStart [PassTokens ''A'' 4 ''B'' 1] = Inr raceBefore"
  by (simp add: run_simps raceStart_def raceBefore_def)

lemma race_end: "run raceBefore raceActions = Inr raceEnd"
  by (simp add: run_simps raceBefore_def raceEnd_def raceActions_def)

lemma race_whole: "run raceStart (PassTokens ''A'' 4 ''B'' 1 # raceActions) = Inr raceEnd"
  using race_before race_end by (simp split: sum.splits)

lemma race_noneStarted: "noneStarted (servers raceBefore) 1"
  by (auto simp: noneStarted_def raceBefore_def hasReceivedSnapshot_def split: if_splits)

lemma race_allComplete: "allComplete (servers raceEnd) 1"
  by (auto simp: allComplete_def snapshotComplete_def raceEnd_def hasReceivedSnapshot_def
        markersOf_def len_def split: if_splits)

lemma race_systemTotal: "systemTotal (servers raceBefore) = 13"
  by (simp add: systemTotal_def outQueued_def raceBefore_def inFlight_def)

theorem snapshot_conserves_resources_witness:
  "newSystem [(''A'', 10), (''B'', 3)] [(''A'', ''B''), (''B'', ''A'')] = Some raceStart \<and>
   run raceStart [PassTokens ''A'' 4 ''B'' 1] = Inr raceBefore \<and>
   noneStarted (servers raceBefore) 1 \<and>
   run raceBefore raceActions = Inr raceEnd \<and>
   allComplete (servers raceEnd) 1 \<and>
   systemTotal (servers raceBefore) = 13 \<and>
   snapshotTotal (servers raceEnd) 1 = 13"
  using snapshot_conserves_resources
          [OF race_built race_before race_noneStarted race_end race_allComplete]
    race_built race_before race_noneStarted race_end race_allComplete race_systemTotal
  by simp

theorem completion_reported_once_witness:
  "newSystem [(''A'', 10), (''B'', 3)] [(''A'', ''B''), (''B'', ''A'')] = Some raceStart \<and>
   run raceStart (PassTokens ''A'' 4 ''B'' 1 # raceActions) = Inr raceEnd \<and>
   notifications (calls raceEnd) ''A'' 1 = 1 \<and>
   run raceStart [PassTokens ''A'' 4 ''B'' 1] = Inr raceBefore \<and>
   notifications (calls raceBefore) ''A'' 1 = 0"
proof -
  have a: "servers raceEnd ''A'' =
     Some \<lparr>Id = ''A'', Tokens = 8,
          outboundLinks = [''B'' \<mapsto> \<lparr>src = ''A'', dest = ''B'', events = []\<rparr>],
          inboundLinks = [''B'' \<mapsto> (''B'', ''A'')],
          receivedSnapshot = [1 \<mapsto> True], inReceivedMarker = [1 \<mapsto> [''B'' \<mapsto> True]],
          snapshot = [1 \<mapsto> \<lparr>snap_id = 1, tokens = [''A'' \<mapsto> 6],
                              messages = [SnapshotMessage ''B'' ''A'' (TokenMessage 2)]\<rparr>]\<rparr>"
    by (simp add: raceEnd_def)
  have b: "servers raceBefore ''A'' =
     Some \<lparr>Id = ''A'', Tokens = 6,
          outboundLinks = [''B'' \<mapsto> \<lparr>src = ''A'', dest = ''B'',
            events = [SendMessageEvent ''A'' ''B'' (TokenMessage 4) 1]\<rparr>],
          inboundLinks = [''B'' \<mapsto> (''B'', ''A'')],
          receivedSnapshot = Map.empty, inReceivedMarker = Map.empty, snapshot = Map.empty\<rparr>"
    by (simp add: raceBefore_def)
  have 1: "notifications (calls raceEnd) ''A'' 1 = 1"
    using completion_reported_once [OF race_built race_whole a, of 1]
    by (simp add: len_def markersOf_def)
  have 2: "notifications (calls raceBefore) ''A'' 1 = 0"
    using completion_reported_once [OF race_built race_before b, of 1]
    by (simp add: len_def markersOf_def)
  from 1 2 race_built race_whole race_before show ?thesis by simp
qed

lemma oneWay_built: "newSystem [(''A'', 1), (''B'', 0)] [(''A'', ''B'')] = Some oneWayStart"
  by (simp add: run_simps oneWayStart_def)

lemma oneWay_end:
  "run oneWayStart [Snapshot ''A'' 1 (\<lambda>_. 2), Deliver ''A'' ''B'' (\<lambda>_. 4)] = Inr oneWayEnd"
  by (simp add: run_simps oneWayStart_def oneWayEnd_def)

text \<open>
  Claim C3 as stated fails for a server without inbound links.  \<open>A\<close> starts snapshot 1
  and \<open>B\<close> receives the marker; then every server has completed the snapshot (\<open>A\<close> has a
  marker for each of its inbound links, of which there are none), no event is left in
  the queue, \<open>B\<close> has reported once, and \<open>A\<close> has not reported.
\<close>

theorem completion_not_reported_counterexample:
  "newSystem [(''A'', 1), (''B'', 0)] [(''A'', ''B'')] = Some oneWayStart \<and>
   run oneWayStart [Snapshot ''A'' 1 (\<lambda>_. 2), Deliver ''A'' ''B'' (\<lambda>_. 4)] = Inr oneWayEnd \<and>
   allComplete (servers oneWayEnd) 1 \<and>
   queue (servers oneWayEnd) ''A'' ''B'' = [] \<and>
   notifications (calls oneWayEnd) ''B'' 1 = 1 \<and>
   notifications (calls oneWayEnd) ''A'' 1 = 0"
proof -
  have "allComplete (servers oneWayEnd) 1"
    by (auto simp: allComplete_def snapshotComplete_def oneWayEnd_def hasReceivedSnapshot_def
          markersOf_def len_def split: if_splits)
  moreover have "queue (servers oneWayEnd) ''A'' ''B'' = []"
    by (simp add: queue_def queueOf_def oneWayEnd_def)
  moreover have "notifications (calls oneWayEnd) ''B'' 1 = 1"
    "notifications (calls oneWayEnd) ''A'' 1 = 0"
    by (simp_all add: notifications_def oneWayEnd_def)
  ultimately show ?thesis using oneWay_built oneWay_end by simp
qed

end
